theory Spec2Isabelle
  imports Complex_Main "HOL-Library.AList" "HOL-Library.Sublist"
begin

section \<open>Streaming protocol translator (routes/messages/stream-translation.ts)\<close>

text \<open>
  The upstream chunk, as far as the translator reads it. Optional fields of the
  TypeScript types are options; \<open>prompt_tokens_details?.cached_tokens\<close> is flattened into
  one optional field of the usage record.
\<close>

datatype FinishReason = Stop | Length | Tool_calls | Content_filter

record FunctionDelta =
  fn_name :: "string option"
  fn_arguments :: "string option"

record ToolCallDelta =
  tc_index :: nat
  tc_id :: "string option"
  tc_function :: "FunctionDelta option"

record Delta =
  content :: "string option"
  tool_calls :: "ToolCallDelta list option"

record Choice =
  delta :: Delta
  finish_reason :: "FinishReason option"

record Usage =
  prompt_tokens :: "int option"
  completion_tokens :: "int option"
  cached_tokens :: "int option"

record ChatCompletionChunk =
  chunk_id :: string
  chunk_model :: string
  choices :: "Choice list"
  usage :: "Usage option"

text \<open>The events of the target protocol. The stop reason is the value produced by
  \<open>mapOpenAIStopReasonToAnthropic\<close>, which lives in a module outside the translator and
  is a parameter of the model.\<close>

record UsageOut =
  input_tokens :: int
  output_tokens :: int
  cache_read_input_tokens :: "int option"

datatype ContentBlock = Text_block string | Tool_use_block string string

datatype BlockDelta = Text_delta string | Input_json_delta string

datatype 'r Event =
    Message_start string string UsageOut
  | Content_block_start nat ContentBlock
  | Content_block_delta nat BlockDelta
  | Content_block_stop nat
  | Message_delta 'r UsageOut
  | Message_stop
  | Error_event string string

record ToolCallInfo =
  tci_id :: string
  tci_name :: string
  anthropicBlockIndex :: nat

record AnthropicStreamState =
  messageStartSent :: bool
  contentBlockIndex :: nat
  contentBlockOpen :: bool
  toolCalls :: "(nat \<times> ToolCallInfo) list"

text \<open>Modelled from the spec: the per-connection state object is created by the route
  handler, which is not part of the sources at hand; a fresh state has sent no message
  start, has no open block, starts at block index 0 and knows no tool call.\<close>

definition freshStreamState :: AnthropicStreamState where
  "freshStreamState =
     \<lparr>messageStartSent = False, contentBlockIndex = 0, contentBlockOpen = False,
      toolCalls = []\<rparr>"

definition isToolBlockOpen :: "AnthropicStreamState \<Rightarrow> bool" where
  "isToolBlockOpen state =
     (if \<not> contentBlockOpen state then False
      else list_ex (\<lambda>tc. anthropicBlockIndex tc = contentBlockIndex state)
             (map snd (toolCalls state)))"

definition calculateInputTokens :: "ChatCompletionChunk \<Rightarrow> int" where
  "calculateInputTokens chunk =
     (case usage chunk of None \<Rightarrow> 0
      | Some u \<Rightarrow> (case prompt_tokens u of None \<Rightarrow> 0 | Some p \<Rightarrow> p))
     - (case usage chunk of None \<Rightarrow> 0
        | Some u \<Rightarrow> (case cached_tokens u of None \<Rightarrow> 0 | Some c \<Rightarrow> c))"

definition getCacheReadTokens :: "ChatCompletionChunk \<Rightarrow> int option" where
  "getCacheReadTokens chunk =
     (case usage chunk of None \<Rightarrow> None | Some u \<Rightarrow> cached_tokens u)"

definition createMessageStartEvent :: "ChatCompletionChunk \<Rightarrow> 'r Event" where
  "createMessageStartEvent chunk =
     Message_start (chunk_id chunk) (chunk_model chunk)
       \<lparr>input_tokens = calculateInputTokens chunk, output_tokens = 0,
        cache_read_input_tokens = getCacheReadTokens chunk\<rparr>"

text \<open>Each handler takes the state and the event array built so far and returns both,
  updated; \<open>events.push\<close> appends at the end.\<close>

definition closeContentBlock :: "AnthropicStreamState \<Rightarrow> AnthropicStreamState \<times> 'r Event" where
  "closeContentBlock state =
     (state\<lparr>contentBlockIndex := contentBlockIndex state + 1, contentBlockOpen := False\<rparr>,
      Content_block_stop (contentBlockIndex state))"

definition handleTextContent ::
  "AnthropicStreamState \<Rightarrow> string \<Rightarrow> 'r Event list \<Rightarrow> AnthropicStreamState \<times> 'r Event list" where
  "handleTextContent state text events =
     (let (s1, ev1) =
            (if isToolBlockOpen state
             then (let (s', e) = closeContentBlock state in (s', events @ [e]))
             else (state, events));
          (s2, ev2) =
            (if \<not> contentBlockOpen s1
             then (s1\<lparr>contentBlockOpen := True\<rparr>,
                   ev1 @ [Content_block_start (contentBlockIndex s1) (Text_block [])])
             else (s1, ev1))
      in (s2, ev2 @ [Content_block_delta (contentBlockIndex s2) (Text_delta text)]))"

definition handleNewToolCall ::
  "AnthropicStreamState \<Rightarrow> nat \<Rightarrow> string \<Rightarrow> string \<Rightarrow> 'r Event list
     \<Rightarrow> AnthropicStreamState \<times> 'r Event list" where
  "handleNewToolCall state toolCallIndex toolCallId toolCallName events =
     (let (s1, ev1) =
            (if contentBlockOpen state
             then (let (s', e) = closeContentBlock state in (s', events @ [e]))
             else (state, events));
          blockIndex = contentBlockIndex s1;
          s2 = s1\<lparr>toolCalls :=
                  AList.update toolCallIndex
                    \<lparr>tci_id = toolCallId, tci_name = toolCallName,
                     anthropicBlockIndex = blockIndex\<rparr> (toolCalls s1)\<rparr>
      in (s2\<lparr>contentBlockOpen := True\<rparr>,
          ev1 @ [Content_block_start blockIndex (Tool_use_block toolCallId toolCallName)]))"

definition handleToolCallArguments ::
  "AnthropicStreamState \<Rightarrow> nat \<Rightarrow> string \<Rightarrow> 'r Event list \<Rightarrow> 'r Event list" where
  "handleToolCallArguments state toolCallIndex args events =
     (case map_of (toolCalls state) toolCallIndex of
        None \<Rightarrow> events
      | Some info \<Rightarrow>
          events @ [Content_block_delta (anthropicBlockIndex info) (Input_json_delta args)])"

definition handleFinishReason ::
  "(FinishReason \<Rightarrow> 'r) \<Rightarrow> ChatCompletionChunk \<Rightarrow> AnthropicStreamState \<Rightarrow> FinishReason
     \<Rightarrow> 'r Event list \<Rightarrow> AnthropicStreamState \<times> 'r Event list" where
  "handleFinishReason mapStop chunk state finishReason events =
     (let (s1, ev1) =
            (if contentBlockOpen state
             then (state\<lparr>contentBlockOpen := False\<rparr>,
                   events @ [Content_block_stop (contentBlockIndex state)])
             else (state, events))
      in (s1,
          ev1 @ [Message_delta (mapStop finishReason)
                   \<lparr>input_tokens = calculateInputTokens chunk,
                    output_tokens =
                      (case usage chunk of None \<Rightarrow> 0
                       | Some u \<Rightarrow> (case completion_tokens u of None \<Rightarrow> 0 | Some c \<Rightarrow> c)),
                    cache_read_input_tokens = getCacheReadTokens chunk\<rparr>,
                 Message_stop]))"

text \<open>JavaScript truthiness of an optional string: defined and not empty.\<close>

definition truthy :: "string option \<Rightarrow> bool" where
  "truthy x = (case x of None \<Rightarrow> False | Some s \<Rightarrow> s \<noteq> [])"

text \<open>The body of the \<open>for (const toolCall of delta.tool_calls)\<close> loop.\<close>

definition handleToolCall ::
  "ToolCallDelta \<Rightarrow> AnthropicStreamState \<times> 'r Event list \<Rightarrow> AnthropicStreamState \<times> 'r Event list" where
  "handleToolCall toolCall acc =
     (let (state, events) = acc;
          name = (case tc_function toolCall of None \<Rightarrow> None | Some f \<Rightarrow> fn_name f);
          args = (case tc_function toolCall of None \<Rightarrow> None | Some f \<Rightarrow> fn_arguments f);
          (s1, ev1) =
            (if truthy (tc_id toolCall) \<and> truthy name
             then handleNewToolCall state (tc_index toolCall) (the (tc_id toolCall)) (the name) events
             else (state, events))
      in (s1, if truthy args
              then handleToolCallArguments s1 (tc_index toolCall) (the args) ev1
              else ev1))"

fun handleToolCalls ::
  "ToolCallDelta list \<Rightarrow> AnthropicStreamState \<times> 'r Event list \<Rightarrow> AnthropicStreamState \<times> 'r Event list" where
  "handleToolCalls [] acc = acc"
| "handleToolCalls (toolCall # rest) acc = handleToolCalls rest (handleToolCall toolCall acc)"

definition translateChunkToAnthropicEvents ::
  "(FinishReason \<Rightarrow> 'r) \<Rightarrow> ChatCompletionChunk \<Rightarrow> AnthropicStreamState
     \<Rightarrow> 'r Event list \<times> AnthropicStreamState" where
  "translateChunkToAnthropicEvents mapStop chunk state =
     (case choices chunk of
        [] \<Rightarrow> ([], state)
      | choice # _ \<Rightarrow>
          (let (s1, ev1) =
                 (if \<not> messageStartSent state
                  then (state\<lparr>messageStartSent := True\<rparr>, [createMessageStartEvent chunk])
                  else (state, []));
               (s2, ev2) =
                 (if truthy (content (delta choice))
                  then handleTextContent s1 (the (content (delta choice))) ev1
                  else (s1, ev1));
               (s3, ev3) =
                 (case tool_calls (delta choice) of
                    None \<Rightarrow> (s2, ev2)
                  | Some tcs \<Rightarrow> handleToolCalls tcs (s2, ev2));
               (s4, ev4) =
                 (case finish_reason choice of
                    None \<Rightarrow> (s3, ev3)
                  | Some fr \<Rightarrow> handleFinishReason mapStop chunk s3 fr ev3)
           in (ev4, s4)))"

definition translateErrorToAnthropicErrorEvent :: "'r Event" where
  "translateErrorToAnthropicErrorEvent =
     Error_event ''api_error'' ''An unexpected error occurred during streaming.''"

text \<open>One connection: the chunks are fed in arrival order through one state object, and
  the events of each chunk are forwarded in order.\<close>

fun translateStream ::
  "(FinishReason \<Rightarrow> 'r) \<Rightarrow> ChatCompletionChunk list \<Rightarrow> AnthropicStreamState
     \<Rightarrow> 'r Event list \<times> AnthropicStreamState" where
  "translateStream mapStop [] state = ([], state)"
| "translateStream mapStop (chunk # rest) state =
     (let (ev, s1) = translateChunkToAnthropicEvents mapStop chunk state;
          (evs, s2) = translateStream mapStop rest s1
      in (ev @ evs, s2))"

text \<open>A chunk with one choice carrying a text delta, and one carrying only a finish reason.\<close>

definition textChunk :: "string \<Rightarrow> string \<Rightarrow> Usage option \<Rightarrow> string \<Rightarrow> ChatCompletionChunk" where
  "textChunk i m u txt =
     \<lparr>chunk_id = i, chunk_model = m,
      choices = [\<lparr>delta = \<lparr>content = Some txt, tool_calls = None\<rparr>, finish_reason = None\<rparr>],
      usage = u\<rparr>"

definition finishChunk ::
  "string \<Rightarrow> string \<Rightarrow> Usage option \<Rightarrow> FinishReason \<Rightarrow> ChatCompletionChunk" where
  "finishChunk i m u fr =
     \<lparr>chunk_id = i, chunk_model = m,
      choices = [\<lparr>delta = \<lparr>content = None, tool_calls = None\<rparr>, finish_reason = Some fr\<rparr>],
      usage = u\<rparr>"

definition noChoiceChunk :: "string \<Rightarrow> string \<Rightarrow> Usage option \<Rightarrow> ChatCompletionChunk" where
  "noChoiceChunk i m u = \<lparr>chunk_id = i, chunk_model = m, choices = [], usage = u\<rparr>"

fun event_type :: "'r Event \<Rightarrow> string" where
  "event_type (Message_start _ _ _) = ''message_start''"
| "event_type (Content_block_start _ _) = ''content_block_start''"
| "event_type (Content_block_delta _ _) = ''content_block_delta''"
| "event_type (Content_block_stop _) = ''content_block_stop''"
| "event_type (Message_delta _ _) = ''message_delta''"
| "event_type Message_stop = ''message_stop''"
| "event_type (Error_event _ _) = ''error''"

text \<open>
  Checkers over an event sequence. \<open>blocks_alternate cur\<close>: starting with block
  \<open>cur\<close> open (or none), every content_block_start comes when no block is open and
  every content_block_stop closes the open block. \<open>blocks_ok cur lb\<close> asks in addition
  that each started index is at least \<open>lb\<close> and above every index started before.
  \<open>open_after\<close> and \<open>bound_after\<close> give the open block and the bound after the events.
\<close>

fun open_after :: "nat option \<Rightarrow> 'r Event list \<Rightarrow> nat option" where
  "open_after cur [] = cur"
| "open_after cur (Content_block_start i b # es) = open_after (Some i) es"
| "open_after cur (Content_block_stop i # es) = open_after None es"
| "open_after cur (e # es) = open_after cur es"

fun bound_after :: "nat \<Rightarrow> 'r Event list \<Rightarrow> nat" where
  "bound_after lb [] = lb"
| "bound_after lb (Content_block_start i b # es) = bound_after (Suc i) es"
| "bound_after lb (e # es) = bound_after lb es"

fun blocks_alternate :: "nat option \<Rightarrow> 'r Event list \<Rightarrow> bool" where
  "blocks_alternate cur [] = True"
| "blocks_alternate cur (Content_block_start i b # es) =
     (cur = None \<and> blocks_alternate (Some i) es)"
| "blocks_alternate cur (Content_block_stop i # es) =
     (cur = Some i \<and> blocks_alternate None es)"
| "blocks_alternate cur (e # es) = blocks_alternate cur es"

fun blocks_ok :: "nat option \<Rightarrow> nat \<Rightarrow> 'r Event list \<Rightarrow> bool" where
  "blocks_ok cur lb [] = True"
| "blocks_ok cur lb (Content_block_start i b # es) =
     (cur = None \<and> lb \<le> i \<and> blocks_ok (Some i) (Suc i) es)"
| "blocks_ok cur lb (Content_block_stop i # es) =
     (cur = Some i \<and> blocks_ok None lb es)"
| "blocks_ok cur lb (e # es) = blocks_ok cur lb es"

definition openBlock :: "AnthropicStreamState \<Rightarrow> nat option" where
  "openBlock s = (if contentBlockOpen s then Some (contentBlockIndex s) else None)"

definition nextBound :: "AnthropicStreamState \<Rightarrow> nat" where
  "nextBound s = (if contentBlockOpen s then Suc (contentBlockIndex s) else contentBlockIndex s)"

fun startIndices :: "'r Event list \<Rightarrow> nat list" where
  "startIndices [] = []"
| "startIndices (Content_block_start i b # es) = i # startIndices es"
| "startIndices (e # es) = startIndices es"

text \<open>What one handler contributes: its events are well formed from the state it starts
  in and lead to the state it ends in.\<close>

definition step_ok :: "AnthropicStreamState \<Rightarrow> 'r Event list \<Rightarrow> AnthropicStreamState \<Rightarrow> bool" where
  "step_ok s ev s' =
     (blocks_ok (openBlock s) (nextBound s) ev
      \<and> open_after (openBlock s) ev = openBlock s'
      \<and> bound_after (nextBound s) ev = nextBound s')"

definition alt_ok :: "AnthropicStreamState \<Rightarrow> 'r Event list \<Rightarrow> AnthropicStreamState \<Rightarrow> bool" where
  "alt_ok s ev s' =
     (blocks_alternate (openBlock s) ev \<and> open_after (openBlock s) ev = openBlock s')"

definition noFinish :: "ChatCompletionChunk \<Rightarrow> bool" where
  "noFinish c = (case choices c of [] \<Rightarrow> True | choice # _ \<Rightarrow> finish_reason choice = None)"

section \<open>Request cache (the request caching module, with its LRU list)\<close>

text \<open>
  A cache entry and the module's state. The JavaScript \<open>Map\<close>s are association lists
  in insertion order (\<open>Map.set\<close> is \<open>AList.update\<close>: in place for a known key, at
  the end for a new one; \<open>Map.size\<close> is the length). The nodes of the doubly linked
  list are objects compared by identity: they live in a store from addresses to nodes;
  a reference is an address, \<open>null\<close> is \<open>None\<close>, and a new node takes the next
  unused address. Times are milliseconds, read from the clock by the caller of the model.
\<close>

record 'v CacheEntry =
  key :: string
  response :: 'v
  model :: string
  inputTokens :: int
  outputTokens :: int
  createdAt :: int
  lastAccessed :: int
  hits :: int

type_synonym addr = nat

record LRUNode =
  node_key :: string
  node_prev :: "addr option"
  node_next :: "addr option"

record CacheConfig =
  enabled :: bool
  maxSize :: int
  ttlSeconds :: int

record 'v CacheState =
  cache :: "(string \<times> 'v CacheEntry) list"
  lruNodes :: "(string \<times> addr) list"
  heap :: "addr \<Rightarrow> LRUNode"
  nextAddr :: addr
  lruHead :: "addr option"
  lruTail :: "addr option"
  cacheConfig :: CacheConfig
  stats_hits :: int
  stats_misses :: int
  savedTokens :: int
  isDirty :: bool

definition setPrev :: "addr \<Rightarrow> addr option \<Rightarrow> (addr \<Rightarrow> LRUNode) \<Rightarrow> (addr \<Rightarrow> LRUNode)" where
  "setPrev a v h = h(a := (h a)\<lparr>node_prev := v\<rparr>)"

definition setNext :: "addr \<Rightarrow> addr option \<Rightarrow> (addr \<Rightarrow> LRUNode) \<Rightarrow> (addr \<Rightarrow> LRUNode)" where
  "setNext a v h = h(a := (h a)\<lparr>node_next := v\<rparr>)"

text \<open>The module's initial state: both maps empty, the list empty, the cache disabled
  with the default limits.\<close>

definition initialCacheState :: "'v CacheState" where
  "initialCacheState =
     \<lparr>cache = [], lruNodes = [], heap = (\<lambda>_. \<lparr>node_key = [], node_prev = None, node_next = None\<rparr>),
      nextAddr = 0, lruHead = None, lruTail = None,
      cacheConfig = \<lparr>enabled = False, maxSize = 1000, ttlSeconds = 3600\<rparr>,
      stats_hits = 0, stats_misses = 0, savedTokens = 0, isDirty = False\<rparr>"

text \<open>\<open>moveToFront(node)\<close>: the assignments of the source, one after the other, each
  reading the store as the assignments before it left it.\<close>

definition moveToFront :: "addr \<Rightarrow> 'v CacheState \<Rightarrow> 'v CacheState" where
  "moveToFront node s =
     (if lruHead s = Some node then s
      else
        let h0 = heap s;
            h1 = (case node_prev (h0 node) of
                    Some p \<Rightarrow> setNext p (node_next (h0 node)) h0 | None \<Rightarrow> h0);
            h2 = (case node_next (h1 node) of
                    Some n \<Rightarrow> setPrev n (node_prev (h1 node)) h1 | None \<Rightarrow> h1);
            tail1 = (if lruTail s = Some node then node_prev (h2 node) else lruTail s);
            h3 = setPrev node None h2;
            h4 = setNext node (lruHead s) h3;
            h5 = (case lruHead s of Some front \<Rightarrow> setPrev front (Some node) h4 | None \<Rightarrow> h4);
            tail2 = (case tail1 of None \<Rightarrow> Some node | Some t \<Rightarrow> Some t)
        in s\<lparr>heap := h5, lruHead := Some node, lruTail := tail2\<rparr>)"

text \<open>\<open>addToFront(key)\<close> allocates the node; no caller uses the node it returns.\<close>

definition addToFront :: "string \<Rightarrow> 'v CacheState \<Rightarrow> 'v CacheState" where
  "addToFront k s =
     (let node = nextAddr s;
          h1 = (heap s)(node := \<lparr>node_key = k, node_prev = None, node_next = lruHead s\<rparr>);
          h2 = (case lruHead s of Some front \<Rightarrow> setPrev front (Some node) h1 | None \<Rightarrow> h1);
          tail1 = (case lruTail s of None \<Rightarrow> Some node | Some t \<Rightarrow> Some t)
      in s\<lparr>heap := h2, nextAddr := node + 1, lruHead := Some node, lruTail := tail1,
           lruNodes := AList.update k node (lruNodes s)\<rparr>)"

definition removeTail :: "'v CacheState \<Rightarrow> string option \<times> 'v CacheState" where
  "removeTail s =
     (case lruTail s of
        None \<Rightarrow> (None, s)
      | Some t \<Rightarrow>
          (let k = node_key (heap s t);
               s1 = s\<lparr>lruNodes := AList.delete k (lruNodes s)\<rparr>;
               s2 = (case node_prev (heap s1 t) of
                       Some p \<Rightarrow> s1\<lparr>heap := setNext p None (heap s1), lruTail := Some p\<rparr>
                     | None \<Rightarrow> s1\<lparr>lruHead := None, lruTail := None\<rparr>)
           in (Some k, s2)))"

definition removeNode :: "string \<Rightarrow> 'v CacheState \<Rightarrow> 'v CacheState" where
  "removeNode k s =
     (case map_of (lruNodes s) k of
        None \<Rightarrow> s
      | Some node \<Rightarrow>
          (let h0 = heap s;
               h1 = (case node_prev (h0 node) of
                       Some p \<Rightarrow> setNext p (node_next (h0 node)) h0 | None \<Rightarrow> h0);
               h2 = (case node_next (h1 node) of
                       Some n \<Rightarrow> setPrev n (node_prev (h1 node)) h1 | None \<Rightarrow> h1);
               head1 = (if lruHead s = Some node then node_next (h2 node) else lruHead s);
               tail1 = (if lruTail s = Some node then node_prev (h2 node) else lruTail s)
           in s\<lparr>heap := h2, lruHead := head1, lruTail := tail1,
                lruNodes := AList.delete k (lruNodes s)\<rparr>))"

definition resetLRU :: "'v CacheState \<Rightarrow> 'v CacheState" where
  "resetLRU s = s\<lparr>lruNodes := [], lruHead := None, lruTail := None\<rparr>"

text \<open>
  \<open>evictLRU\<close> is a \<open>while\<close> loop; on a store whose links form a cycle it need not
  end, so the model returns an option and \<open>None\<close> stands for a loop that never returns.
  \<open>if (key)\<close> tests the key returned by \<open>removeTail\<close> for truthiness: \<open>null\<close> and
  the empty string both leave the loop.
\<close>

partial_function (option) evictLRU :: "'v CacheState \<Rightarrow> 'v CacheState option" where
  "evictLRU s =
     (if int (length (cache s)) > maxSize (cacheConfig s)
      then (let r = removeTail s in
            if truthy (fst r)
            then evictLRU ((snd r)\<lparr>cache := AList.delete (the (fst r)) (cache (snd r)),
                                   isDirty := True\<rparr>)
            else Some (snd r))
      else Some s)"

declare evictLRU.simps [code]

definition getCachedResponse ::
  "string \<Rightarrow> int \<Rightarrow> 'v CacheState \<Rightarrow> 'v CacheEntry option \<times> 'v CacheState" where
  "getCachedResponse k now s =
     (if \<not> enabled (cacheConfig s) then (None, s)
      else case map_of (cache s) k of
        None \<Rightarrow> (None, s\<lparr>stats_misses := stats_misses s + 1\<rparr>)
      | Some entry \<Rightarrow>
          (let ttlMs = ttlSeconds (cacheConfig s) * 1000 in
           if now - createdAt entry > ttlMs
           then (let s1 = s\<lparr>cache := AList.delete k (cache s)\<rparr>;
                     s2 = removeNode k s1
                 in (None, s2\<lparr>stats_misses := stats_misses s2 + 1, isDirty := True\<rparr>))
           else (let entry1 = entry\<lparr>lastAccessed := now, hits := hits entry + 1\<rparr>;
                     s1 = s\<lparr>cache := AList.update k entry1 (cache s),
                            stats_hits := stats_hits s + 1,
                            savedTokens := savedTokens s + (inputTokens entry + outputTokens entry),
                            isDirty := True\<rparr>;
                     s2 = (case map_of (lruNodes s1) k of
                             Some node \<Rightarrow> moveToFront node s1 | None \<Rightarrow> s1)
                 in (Some entry1, s2))))"

definition newEntry :: "string \<Rightarrow> 'v \<Rightarrow> string \<Rightarrow> int \<Rightarrow> int \<Rightarrow> int \<Rightarrow> 'v CacheEntry" where
  "newEntry k r m inTok outTok now =
     \<lparr>key = k, response = r, model = m, inputTokens = inTok, outputTokens = outTok,
      createdAt = now, lastAccessed = now, hits = 0\<rparr>"

definition setCachedResponse ::
  "string \<Rightarrow> 'v \<Rightarrow> string \<Rightarrow> int \<Rightarrow> int \<Rightarrow> int \<Rightarrow> 'v CacheState \<Rightarrow> 'v CacheState option" where
  "setCachedResponse k r m inTok outTok now s =
     (if \<not> enabled (cacheConfig s) then Some s
      else
        let entry = newEntry k r m inTok outTok now;
            s1 = (if map_of (cache s) k \<noteq> None
                  then (case map_of (lruNodes s) k of
                          Some node \<Rightarrow> moveToFront node s | None \<Rightarrow> s)
                  else addToFront k s);
            s2 = s1\<lparr>cache := AList.update k entry (cache s1), isDirty := True\<rparr>
        in evictLRU s2)"

definition deleteCacheEntry :: "string \<Rightarrow> 'v CacheState \<Rightarrow> bool \<times> 'v CacheState" where
  "deleteCacheEntry k s =
     (if map_of (cache s) k \<noteq> None
      then (True, (removeNode k (s\<lparr>cache := AList.delete k (cache s)\<rparr>))\<lparr>isDirty := True\<rparr>)
      else (False, s))"

definition clearCache :: "'v CacheState \<Rightarrow> 'v CacheState" where
  "clearCache s = (resetLRU (s\<lparr>cache := []\<rparr>))\<lparr>isDirty := True\<rparr>"

text \<open>The order of the LRU list, read off the store from \<open>lruHead\<close> along the
  \<open>next\<close> links (at most as many steps as there are registered nodes), and the keys in
  that order, most recently used first.\<close>

fun walk :: "(addr \<Rightarrow> LRUNode) \<Rightarrow> nat \<Rightarrow> addr option \<Rightarrow> addr list" where
  "walk h 0 p = []"
| "walk h (Suc n) None = []"
| "walk h (Suc n) (Some a) = a # walk h n (node_next (h a))"

definition lruList :: "'v CacheState \<Rightarrow> addr list" where
  "lruList s = walk (heap s) (length (lruNodes s)) (lruHead s)"

definition nodeKeys :: "'v CacheState \<Rightarrow> addr list \<Rightarrow> string list" where
  "nodeKeys s as = map (\<lambda>a. node_key (heap s a)) as"

definition lruKeys :: "'v CacheState \<Rightarrow> string list" where
  "lruKeys s = nodeKeys s (lruList s)"

text \<open>
  Well-formedness of the module state with respect to a list \<open>as\<close> of node addresses,
  most recently used first: the nodes of \<open>as\<close> are linked in both directions from
  \<open>lruHead\<close> to \<open>lruTail\<close> (\<open>lru_linked\<close>), \<open>lruNodes\<close> registers exactly these
  nodes under their keys, the cache holds exactly these keys, once each, and no key is
  the empty string. The state is well formed (\<open>cache_inv\<close>) when this holds of the list
  read off the store.
\<close>

definition first :: "addr list \<Rightarrow> addr option" where
  "first as = (case as of [] \<Rightarrow> None | a # _ \<Rightarrow> Some a)"

definition lastopt :: "addr list \<Rightarrow> addr option" where
  "lastopt as = (if as = [] then None else Some (last as))"

primrec dseg :: "(addr \<Rightarrow> LRUNode) \<Rightarrow> addr option \<Rightarrow> addr list \<Rightarrow> addr option \<Rightarrow> bool" where
  "dseg h p [] n = True"
| "dseg h p (a # as) n =
     (node_prev (h a) = p
      \<and> node_next (h a) = (if as = [] then n else first as)
      \<and> dseg h (Some a) as n)"

definition lru_linked :: "'v CacheState \<Rightarrow> addr list \<Rightarrow> bool" where
  "lru_linked s as =
     (distinct as \<and> dseg (heap s) None as None
      \<and> lruHead s = first as \<and> lruTail s = lastopt as)"

definition wf_lru :: "'v CacheState \<Rightarrow> addr list \<Rightarrow> bool" where
  "wf_lru s as =
     (lru_linked s as
      \<and> list_all (\<lambda>a. a < nextAddr s) as
      \<and> list_all (\<lambda>a. map_of (lruNodes s) (node_key (heap s a)) = Some a) as
      \<and> distinct (map fst (lruNodes s))
      \<and> set (map fst (lruNodes s)) = set (nodeKeys s as)
      \<and> distinct (map fst (cache s))
      \<and> set (map fst (cache s)) = set (nodeKeys s as)
      \<and> [] \<notin> set (map fst (cache s)))"

definition cache_inv :: "'v CacheState \<Rightarrow> bool" where
  "cache_inv s = wf_lru s (lruList s)"

text \<open>
  \<open>generateCacheKey\<close>: the model name, an underscore, and the first 16 hexadecimal digits
  of the SHA-256 digest of the canonical JSON payload. The payload (built by
  \<open>buildCacheKeyPayload\<close> from model, messages and options) and the digest function are
  parameters of the model.
\<close>

definition generateCacheKey :: "('p \<Rightarrow> string) \<Rightarrow> string \<Rightarrow> 'p \<Rightarrow> string" where
  "generateCacheKey sha256hex mdl payload = mdl @ ''_'' @ take 16 (sha256hex payload)"

text \<open>Concrete states used to instantiate the theorems: the initial state with the cache
  switched on, and a cache of capacity 2 holding \<open>a\<close> (older) and \<open>b\<close> (newer).\<close>

definition exampleState :: "int \<Rightarrow> nat CacheState" where
  "exampleState n =
     initialCacheState\<lparr>cacheConfig := \<lparr>enabled = True, maxSize = n, ttlSeconds = 10\<rparr>\<rparr>"

definition twoEntries :: "nat CacheState" where
  "twoEntries =
     \<lparr>cache = [(''a'', newEntry ''a'' 1 ''gpt-4'' 10 20 1000),
               (''b'', newEntry ''b'' 2 ''gpt-4'' 30 40 2000)],
      lruNodes = [(''a'', 0), (''b'', 1)],
      heap = (\<lambda>_. \<lparr>node_key = [], node_prev = None, node_next = None\<rparr>)
               (0 := \<lparr>node_key = ''a'', node_prev = Some 1, node_next = None\<rparr>,
                1 := \<lparr>node_key = ''b'', node_prev = None, node_next = Some 0\<rparr>),
      nextAddr = 2, lruHead = Some 1, lruTail = Some 0,
      cacheConfig = \<lparr>enabled = True, maxSize = 2, ttlSeconds = 10\<rparr>,
      stats_hits = 0, stats_misses = 0, savedTokens = 0, isDirty = True\<rparr>"

definition disabledTwoEntries :: "nat CacheState" where
  "disabledTwoEntries =
     twoEntries\<lparr>cacheConfig := \<lparr>enabled = False, maxSize = 2, ttlSeconds = 10\<rparr>\<rparr>"

definition exampleKey :: string where
  "exampleKey = generateCacheKey (\<lambda>p::nat. ''0123456789abcdef0123456789abcdef'') ''gpt-4'' 0"

section \<open>Retry utility (lib/retry.ts)\<close>

text \<open>
  A thrown JavaScript value, as far as the retry predicates inspect it: an object with
  the optional properties \<open>status\<close>, \<open>response.status\<close>, \<open>code\<close> and \<open>name\<close>, or
  something that is not an object (\<open>undefined\<close>, a string). Numbers are real numbers
  here; attempt counts are integers.
\<close>

record ErrorObject =
  err_status :: "int option"
  err_response_status :: "int option"
  err_code :: "string option"
  err_name :: "string option"

datatype thrown = Undefined | Non_object string | Object ErrorObject

record RetryOptions =
  maxAttempts :: int
  initialDelayMs :: real
  maxDelayMs :: real
  backoffMultiplier :: real
  retryableStatuses :: "int list"
  onRetry :: "(int \<Rightarrow> thrown \<Rightarrow> thrown option) option"

text \<open>The optional callback \<open>onRetry\<close> returns \<open>Some t\<close> when it throws \<open>t\<close>.\<close>

definition DEFAULT_OPTIONS :: RetryOptions where
  "DEFAULT_OPTIONS =
     \<lparr>maxAttempts = 3, initialDelayMs = 1000, maxDelayMs = 30000, backoffMultiplier = 2,
      retryableStatuses = [429, 500, 502, 503, 504], onRetry = None\<rparr>"

record PartialRetryOptions =
  p_maxAttempts :: "int option"
  p_initialDelayMs :: "real option"
  p_maxDelayMs :: "real option"
  p_backoffMultiplier :: "real option"
  p_retryableStatuses :: "int list option"
  p_onRetry :: "(int \<Rightarrow> thrown \<Rightarrow> thrown option) option"

definition noOptions :: PartialRetryOptions where
  "noOptions =
     \<lparr>p_maxAttempts = None, p_initialDelayMs = None, p_maxDelayMs = None,
      p_backoffMultiplier = None, p_retryableStatuses = None, p_onRetry = None\<rparr>"

text \<open>\<open>{ ...DEFAULT_OPTIONS, ...options }\<close>: a property present in \<open>options\<close> wins.\<close>

definition mergeOptions :: "RetryOptions \<Rightarrow> PartialRetryOptions \<Rightarrow> RetryOptions" where
  "mergeOptions d p =
     \<lparr>maxAttempts = (case p_maxAttempts p of None \<Rightarrow> maxAttempts d | Some v \<Rightarrow> v),
      initialDelayMs = (case p_initialDelayMs p of None \<Rightarrow> initialDelayMs d | Some v \<Rightarrow> v),
      maxDelayMs = (case p_maxDelayMs p of None \<Rightarrow> maxDelayMs d | Some v \<Rightarrow> v),
      backoffMultiplier =
        (case p_backoffMultiplier p of None \<Rightarrow> backoffMultiplier d | Some v \<Rightarrow> v),
      retryableStatuses =
        (case p_retryableStatuses p of None \<Rightarrow> retryableStatuses d | Some v \<Rightarrow> v),
      onRetry = (case p_onRetry p of None \<Rightarrow> onRetry d | Some v \<Rightarrow> Some v)\<rparr>"

text \<open>\<open>status && retryableStatuses.includes(status)\<close>: a status of 0 is falsy.\<close>

definition isRetryableStatus :: "thrown \<Rightarrow> int list \<Rightarrow> bool" where
  "isRetryableStatus error statuses =
     (case error of
        Object e \<Rightarrow>
          (if (case err_status e of None \<Rightarrow> False | Some st \<Rightarrow> st \<noteq> 0 \<and> st \<in> set statuses)
           then True
           else (case err_response_status e of
                   None \<Rightarrow> False | Some st \<Rightarrow> st \<noteq> 0 \<and> st \<in> set statuses))
      | _ \<Rightarrow> False)"

definition isNetworkError :: "thrown \<Rightarrow> bool" where
  "isNetworkError error =
     (case error of
        Object e \<Rightarrow>
          (let isNetworkCode =
                 (err_code e = Some ''ECONNRESET'' \<or> err_code e = Some ''ECONNREFUSED''
                  \<or> err_code e = Some ''ETIMEDOUT'' \<or> err_code e = Some ''ENOTFOUND''
                  \<or> err_code e = Some ''EAI_AGAIN'')
           in if isNetworkCode then True
              else err_name e = Some ''AbortError'' \<or> err_name e = Some ''TimeoutError'')
      | _ \<Rightarrow> False)"

text \<open>\<open>calculateDelay\<close>: the locals \<open>delay\<close> and \<open>jitter\<close> of the source are the two
  functions below; \<open>random\<close> is the value \<open>Math.random()\<close> returned, in \<open>[0, 1)\<close>.\<close>

definition backoffDelay :: "int \<Rightarrow> real \<Rightarrow> real \<Rightarrow> real" where
  "backoffDelay attempt initialDelay multiplier = initialDelay * multiplier powi (attempt - 1)"

definition backoffJitter :: "int \<Rightarrow> real \<Rightarrow> real \<Rightarrow> real \<Rightarrow> real" where
  "backoffJitter attempt initialDelay multiplier random =
     backoffDelay attempt initialDelay multiplier * 0.2 * (random - 0.5)"

definition calculateDelay :: "int \<Rightarrow> real \<Rightarrow> real \<Rightarrow> real \<Rightarrow> real \<Rightarrow> real" where
  "calculateDelay attempt initialDelay maxDelay multiplier random =
     min (backoffDelay attempt initialDelay multiplier
            + backoffJitter attempt initialDelay multiplier random)
         maxDelay"

text \<open>
  One run of \<open>withRetry\<close>: what it returns or throws, how often it called \<open>fn\<close>, and the
  delays it slept, in order. \<open>fn n\<close> is the outcome of the \<open>n\<close>-th invocation of the
  wrapped function (\<open>Inl\<close> a thrown value, \<open>Inr\<close> the resolved value) and \<open>random n\<close>
  the random draw taken after the \<open>n\<close>-th invocation failed.
\<close>

record 'a RetryRun =
  outcome :: "thrown + 'a"
  calls :: nat
  slept :: "real list"

function withRetry_loop ::
  "RetryOptions \<Rightarrow> (nat \<Rightarrow> thrown + 'a) \<Rightarrow> (nat \<Rightarrow> real) \<Rightarrow> int \<Rightarrow> thrown \<Rightarrow> nat \<Rightarrow> real list
     \<Rightarrow> 'a RetryRun" where
  "withRetry_loop opts fn random attempt lastError ncalls sleeps =
     (if attempt \<le> maxAttempts opts
      then (case fn (Suc ncalls) of
              Inr v \<Rightarrow> \<lparr>outcome = Inr v, calls = Suc ncalls, slept = sleeps\<rparr>
            | Inl error \<Rightarrow>
                (let canRetry = attempt < maxAttempts opts;
                     isRetryable = (isRetryableStatus error (retryableStatuses opts)
                                    \<or> isNetworkError error);
                     shouldRetry = (canRetry \<and> isRetryable)
                 in if \<not> shouldRetry
                    then \<lparr>outcome = Inl error, calls = Suc ncalls, slept = sleeps\<rparr>
                    else (let delay = calculateDelay attempt (initialDelayMs opts)
                                        (maxDelayMs opts) (backoffMultiplier opts)
                                        (random (Suc ncalls))
                          in case (case onRetry opts of
                                     None \<Rightarrow> None | Some callback \<Rightarrow> callback attempt error) of
                               Some t \<Rightarrow> \<lparr>outcome = Inl t, calls = Suc ncalls, slept = sleeps\<rparr>
                             | None \<Rightarrow>
                                 withRetry_loop opts fn random (attempt + 1) error (Suc ncalls)
                                   (sleeps @ [delay]))))
      else \<lparr>outcome = Inl lastError, calls = ncalls, slept = sleeps\<rparr>)"
  by pat_completeness auto
termination
  by (relation "measure (\<lambda>(opts, fn, random, attempt, lastError, ncalls, sleeps).
                  nat (maxAttempts opts + 1 - attempt))") auto

definition withRetry ::
  "(nat \<Rightarrow> thrown + 'a) \<Rightarrow> PartialRetryOptions \<Rightarrow> (nat \<Rightarrow> real) \<Rightarrow> 'a RetryRun" where
  "withRetry fn options random =
     withRetry_loop (mergeOptions DEFAULT_OPTIONS options) fn random 1 Undefined 0 []"

text \<open>A thrown value is a failure with HTTP status \<open>st\<close> when it is an object whose
  \<open>status\<close> or \<open>response.status\<close> is \<open>st\<close> (neither is another status) and which
  carries no network error code or abort name. \<open>httpError st\<close> is the shape of the
  repository's \<open>HTTPError\<close>, which holds the \<open>Response\<close>.\<close>

definition failsWithStatus :: "int \<Rightarrow> thrown \<Rightarrow> bool" where
  "failsWithStatus st error =
     (case error of
        Object e \<Rightarrow>
          (err_status e = Some st \<or> err_status e = None)
          \<and> (err_response_status e = Some st \<or> err_response_status e = None)
          \<and> (err_status e = Some st \<or> err_response_status e = Some st)
          \<and> \<not> isNetworkError error
      | _ \<Rightarrow> False)"

definition httpError :: "int \<Rightarrow> thrown" where
  "httpError st =
     Object \<lparr>err_status = None, err_response_status = Some st, err_code = None,
             err_name = Some ''Error''\<rparr>"

text \<open>The loop's equation is unfolded by hand in the proofs, one round at a time.\<close>

declare withRetry_loop.simps [simp del]

text \<open>
  Vocabulary for the statements about \<open>withRetry\<close>: \<open>retryable\<close> is the local
  \<open>isRetryable\<close> of the loop; \<open>callbackSilent\<close> says that the \<open>onRetry\<close> callback, if
  one is given, never throws; \<open>delays opts random n\<close> are the delays computed after
  the failed attempts \<open>1, ..., n\<close>. \<open>failThenSucceed\<close> is a function that fails twice
  with status 503 and then resolves to 42.
\<close>

definition retryable :: "RetryOptions \<Rightarrow> thrown \<Rightarrow> bool" where
  "retryable opts error =
     (isRetryableStatus error (retryableStatuses opts) \<or> isNetworkError error)"

definition callbackSilent :: "RetryOptions \<Rightarrow> bool" where
  "callbackSilent opts =
     (case onRetry opts of None \<Rightarrow> True | Some callback \<Rightarrow> \<forall>a e. callback a e = None)"

definition delays :: "RetryOptions \<Rightarrow> (nat \<Rightarrow> real) \<Rightarrow> nat \<Rightarrow> real list" where
  "delays opts random n =
     map (\<lambda>k. calculateDelay (int k) (initialDelayMs opts) (maxDelayMs opts)
                (backoffMultiplier opts) (random k)) [1..<Suc n]"

definition failThenSucceed :: "nat \<Rightarrow> thrown + nat" where
  "failThenSucceed n = (if n < 3 then Inl (httpError 503) else Inr 42)"

section \<open>Rate limit gate and token refresh (lib/rate-limit, lib/token.ts)\<close>

text \<open>
  The fields of the global \<open>state\<close> object that these two modules read and write.
  Clock readings (\<open>Date.now()\<close>) are whole milliseconds. The interval
  \<open>rateLimitSeconds\<close> is a whole number of seconds here. For such intervals, and clock
  readings of the size of \<open>Date.now()\<close>, the comparison and the ceiling that the source
  computes in double precision come out as in exact arithmetic: the rounding error of the
  quotient by 1000 is far smaller than the 0.001 s by which an elapsed time can miss a
  whole second. Intervals with a fractional part are outside this model.
\<close>

record State =
  rateLimitSeconds :: "int option"
  lastRequestTimestamp :: "int option"
  rateLimitWait :: bool
  githubToken :: "string option"
  copilotToken :: "string option"
  showToken :: bool

text \<open>Modelled from the spec: \<open>HTTPError\<close> is defined in a module that is not among the
  sources; it carries a message and the HTTP response, of which the status is kept.\<close>

datatype HTTPError = HTTPError string int

definition updateTimestamp :: "int \<Rightarrow> State \<Rightarrow> State" where
  "updateTimestamp clock state = state\<lparr>lastRequestTimestamp := Some clock\<rparr>"

text \<open>
  \<open>checkRateLimit\<close>: \<open>now\<close> is the clock at entry; \<open>later\<close> is the clock when
  \<open>updateTimestamp\<close> reads it again (after the sleep, on the waiting path). The result
  is the error thrown or normal return, the state, and the sleeps in milliseconds.
  \<open>!lastTimestamp\<close> holds for \<open>undefined\<close> and for 0.
\<close>

definition checkRateLimit ::
  "State \<Rightarrow> int \<Rightarrow> int \<Rightarrow> (HTTPError + unit) \<times> State \<times> int list" where
  "checkRateLimit state now later =
     (case rateLimitSeconds state of
        None \<Rightarrow> (Inr (), state, [])
      | Some limit \<Rightarrow>
          (case lastRequestTimestamp state of
             None \<Rightarrow> (Inr (), updateTimestamp later state, [])
           | Some lastTimestamp \<Rightarrow>
               if lastTimestamp = 0 then (Inr (), updateTimestamp later state, [])
               else
                 (let elapsedSeconds = real_of_int (now - lastTimestamp) / 1000 in
                  if elapsedSeconds > real_of_int limit
                  then (Inr (), updateTimestamp later state, [])
                  else
                    (let waitTimeSeconds = \<lceil>real_of_int limit - elapsedSeconds\<rceil> in
                     if \<not> rateLimitWait state
                     then (Inl (HTTPError ''Rate limit exceeded'' 429), state, [])
                     else (let waitTimeMs = waitTimeSeconds * 1000
                           in (Inr (), updateTimestamp later state, [waitTimeMs]))))))"

record GetCopilotTokenResponse =
  expires_at :: int
  refresh_in :: int
  token :: string

datatype TokenLog =
    Log_fetched
  | Log_token string
  | Log_refreshing
  | Log_refreshed
  | Log_refreshed_token string
  | Log_refresh_failed int int thrown
  | Log_all_refresh_attempts_failed

definition MAX_TOKEN_REFRESH_RETRIES :: int where
  "MAX_TOKEN_REFRESH_RETRIES = 3"

definition maskToken :: "string \<Rightarrow> string" where
  "maskToken t =
     (if length t \<le> 8 then ''***''
      else take 4 t @ ''...'' @ drop (length t - 4) t)"

text \<open>
  One firing of the refresh timer: the \<open>for\<close> loop over \<open>attempt\<close>. \<open>fetch n\<close> is the
  outcome of the \<open>n\<close>-th call of \<open>getCopilotToken\<close> in this firing. The run records the
  state, the number of calls, the sleeps in milliseconds and the log lines.
\<close>

record RefreshRun =
  run_state :: State
  run_calls :: nat
  run_slept :: "int list"
  run_log :: "TokenLog list"

function refresh_loop ::
  "(nat \<Rightarrow> thrown + GetCopilotTokenResponse) \<Rightarrow> int \<Rightarrow> RefreshRun \<Rightarrow> RefreshRun" where
  "refresh_loop fetch attempt run =
     (if attempt \<le> MAX_TOKEN_REFRESH_RETRIES
      then (case fetch (Suc (run_calls run)) of
              Inr resp \<Rightarrow>
                run\<lparr>run_state := (run_state run)\<lparr>copilotToken := Some (token resp)\<rparr>,
                    run_calls := Suc (run_calls run),
                    run_log := run_log run @ [Log_refreshed]
                       @ (if showToken (run_state run)
                          then [Log_refreshed_token (maskToken (token resp))] else [])\<rparr>
            | Inl error \<Rightarrow>
                refresh_loop fetch (attempt + 1)
                  (run\<lparr>run_calls := Suc (run_calls run),
                       run_slept := run_slept run
                          @ (if attempt < MAX_TOKEN_REFRESH_RETRIES then [attempt * 5000] else []),
                       run_log := run_log run
                          @ [Log_refresh_failed attempt MAX_TOKEN_REFRESH_RETRIES error]\<rparr>))
      else run\<lparr>run_log := run_log run @ [Log_all_refresh_attempts_failed]\<rparr>)"
  by pat_completeness auto
termination
  by (relation "measure (\<lambda>(fetch, attempt, run). nat (MAX_TOKEN_REFRESH_RETRIES + 1 - attempt))")
     auto

definition refreshTick :: "State \<Rightarrow> (nat \<Rightarrow> thrown + GetCopilotTokenResponse) \<Rightarrow> RefreshRun" where
  "refreshTick state fetch =
     refresh_loop fetch 1
       \<lparr>run_state = state, run_calls = 0, run_slept = [], run_log = [Log_refreshing]\<rparr>"

text \<open>
  \<open>setupCopilotToken\<close>: the first fetch, whose failure is thrown to the caller; on
  success the token is stored and the timer is registered with the period returned here
  (in milliseconds).
\<close>

record SetupResult =
  setup_state :: State
  refreshInterval :: int
  setup_log :: "TokenLog list"

definition setupCopilotToken ::
  "string option \<Rightarrow> State \<Rightarrow> (thrown + GetCopilotTokenResponse) \<Rightarrow> thrown + SetupResult" where
  "setupCopilotToken tokenOverride state first_fetch =
     (let s1 = (if truthy tokenOverride then state\<lparr>githubToken := tokenOverride\<rparr> else state)
      in case first_fetch of
           Inl error \<Rightarrow> Inl error
         | Inr resp \<Rightarrow>
             Inr \<lparr>setup_state = s1\<lparr>copilotToken := Some (token resp)\<rparr>,
                  refreshInterval = (refresh_in resp - 60) * 1000,
                  setup_log = Log_fetched
                     # (if showToken s1 then [Log_token (maskToken (token resp))] else [])\<rparr>)"

text \<open>
  The timer: \<open>setInterval(callback, refreshInterval)\<close>, registered when the clock reads
  \<open>registeredAt\<close> (milliseconds), fires for the \<open>n\<close>-th time (\<open>n = 1, 2, ...\<close>) at
  \<open>registeredAt + n * refreshInterval\<close>. The period is fixed at registration; the
  callback does not read the response of a later fetch for anything but the token.
\<close>

definition firingTime :: "int \<Rightarrow> SetupResult \<Rightarrow> nat \<Rightarrow> int" where
  "firingTime registeredAt r n = registeredAt + int n * refreshInterval r"

text \<open>
  The schedule in the words of the specification, for comparison with \<open>firingTime\<close>:
  60 seconds before the declared expiry \<open>expires_at\<close> of the token (seconds since the
  epoch), as a clock reading in milliseconds.
\<close>

definition expiryMinus60s :: "GetCopilotTokenResponse \<Rightarrow> int" where
  "expiryMinus60s resp = (expires_at resp - 60) * 1000"

text \<open>Concrete states and a token response used to instantiate the theorems.\<close>

definition pacedState :: "bool \<Rightarrow> State" where
  "pacedState wait =
     \<lparr>rateLimitSeconds = Some 10, lastRequestTimestamp = Some 1000, rateLimitWait = wait,
      githubToken = Some ''gho_example'', copilotToken = Some ''tid=stale_token_0001'',
      showToken = False\<rparr>"

declare refresh_loop.simps [simp del]

definition tokenState :: State where
  "tokenState =
     \<lparr>rateLimitSeconds = None, lastRequestTimestamp = None, rateLimitWait = False,
      githubToken = Some ''gho_example'', copilotToken = Some ''tid=stale_token_0001'',
      showToken = False\<rparr>"

definition freshToken :: GetCopilotTokenResponse where
  "freshToken = \<lparr>expires_at = 1700001800, refresh_in = 1500, token = ''tid=fresh_token_0002''\<rparr>"

section \<open>Properties of the streaming translator\<close>

lemma handleTextContent_acc:
  fixes ev :: "'r Event list"
  shows "handleTextContent s t ev =
     (fst (handleTextContent s t ([]::'r Event list)),
      ev @ snd (handleTextContent s t ([]::'r Event list)))"
  by (simp add: handleTextContent_def closeContentBlock_def Let_def split: prod.splits)

lemma handleNewToolCall_acc:
  fixes ev :: "'r Event list"
  shows "handleNewToolCall s i a b ev =
     (fst (handleNewToolCall s i a b ([]::'r Event list)),
      ev @ snd (handleNewToolCall s i a b ([]::'r Event list)))"
  by (simp add: handleNewToolCall_def closeContentBlock_def Let_def split: prod.splits)

lemma handleToolCallArguments_acc:
  "handleToolCallArguments s i a ev = ev @ handleToolCallArguments s i a []"
  by (simp add: handleToolCallArguments_def split: option.splits)

lemma handleToolCall_acc:
  fixes ev :: "'r Event list"
  shows "handleToolCall tc (s, ev) =
     (fst (handleToolCall tc (s, ([]::'r Event list))),
      ev @ snd (handleToolCall tc (s, ([]::'r Event list))))"
proof -
  define nm where "nm = (case tc_function tc of None \<Rightarrow> None | Some f \<Rightarrow> fn_name f)"
  define ar where "ar = (case tc_function tc of None \<Rightarrow> None | Some f \<Rightarrow> fn_arguments f)"
  define new where "new = (\<lambda>e::'r Event list. if truthy (tc_id tc) \<and> truthy nm
             then handleNewToolCall s (tc_index tc) (the (tc_id tc)) (the nm) e
             else (s, e))"
  have new_acc: "new e = (fst (new []), e @ snd (new []))" for e
    using handleNewToolCall_acc[of s "tc_index tc" "the (tc_id tc)" "the nm" e]
    by (simp add: new_def)
  have unf: "handleToolCall tc (s, e) =
      (fst (new e), if truthy ar
              then handleToolCallArguments (fst (new e)) (tc_index tc) (the ar) (snd (new e))
              else snd (new e))" for e
    by (simp add: handleToolCall_def new_def nm_def ar_def Let_def split: prod.splits)
  show ?thesis
    using new_acc[of ev]
      handleToolCallArguments_acc[of "fst (new [])" "tc_index tc" "the ar" "ev @ snd (new [])"]
      handleToolCallArguments_acc[of "fst (new [])" "tc_index tc" "the ar" "snd (new [])"]
    by (simp add: unf)
qed

lemma handleToolCalls_acc:
  fixes ev :: "'r Event list"
  shows "handleToolCalls tcs (s, ev) =
     (fst (handleToolCalls tcs (s, ([]::'r Event list))),
      ev @ snd (handleToolCalls tcs (s, ([]::'r Event list))))"
proof (induction tcs arbitrary: s ev)
  case Nil
  then show ?case by simp
next
  case (Cons tc tcs)
  obtain s1 and e1 :: "'r Event list" where h: "handleToolCall tc (s, []) = (s1, e1)" by fastforce
  have a: "handleToolCall tc (s, ev) = (s1, ev @ e1)"
    using handleToolCall_acc[of tc s ev] h by simp
  show ?case
    using Cons.IH[of s1 "ev @ e1"] Cons.IH[of s1 e1] by (simp add: a h)
qed

lemma handleFinishReason_acc:
  fixes ev :: "'r Event list"
  shows "handleFinishReason m c s fr ev =
     (fst (handleFinishReason m c s fr ([]::'r Event list)),
      ev @ snd (handleFinishReason m c s fr ([]::'r Event list)))"
  by (simp add: handleFinishReason_def Let_def split: prod.splits)

lemma handleTextContent_prefix: "prefix ev (snd (handleTextContent s t ev))"
  using handleTextContent_acc[of s t ev] by (metis prefixI snd_conv)

lemma handleToolCalls_prefix: "prefix ev (snd (handleToolCalls tcs (s, ev)))"
  using handleToolCalls_acc[of tcs s ev] by (metis prefixI snd_conv)

lemma handleFinishReason_prefix: "prefix ev (snd (handleFinishReason m c s fr ev))"
  using handleFinishReason_acc[of m c s fr ev] by (metis prefixI snd_conv)

lemma translateChunk_message_start_first:
  assumes "choices c \<noteq> []" and "\<not> messageStartSent s"
  shows "prefix [createMessageStartEvent c] (fst (translateChunkToAnthropicEvents mapStop c s))"
proof -
  obtain choice others where c: "choices c = choice # others"
    using assms(1) by (cases "choices c") auto
  define s1 where "s1 = s\<lparr>messageStartSent := True\<rparr>"
  define ev1 :: "'a Event list" where "ev1 = [createMessageStartEvent c]"
  define r2 where "r2 = (if truthy (content (delta choice))
                  then handleTextContent s1 (the (content (delta choice))) ev1
                  else (s1, ev1))"
  define r3 where "r3 = (case tool_calls (delta choice) of
                    None \<Rightarrow> r2
                  | Some tcs \<Rightarrow> handleToolCalls tcs r2)"
  define r4 where "r4 = (case finish_reason choice of
                    None \<Rightarrow> r3
                  | Some fr \<Rightarrow> handleFinishReason mapStop c (fst r3) fr (snd r3))"
  have p2: "prefix ev1 (snd r2)"
    by (simp add: r2_def handleTextContent_prefix)
  have p3: "prefix (snd r2) (snd r3)"
    using handleToolCalls_prefix[of "snd r2" _ "fst r2"]
    by (simp add: r3_def split: option.splits)
  have p4: "prefix (snd r3) (snd r4)"
    by (simp add: r4_def handleFinishReason_prefix split: option.splits)
  have "fst (translateChunkToAnthropicEvents mapStop c s) = snd r4"
    using assms(2)
    by (simp add: translateChunkToAnthropicEvents_def c r4_def r3_def r2_def s1_def ev1_def
        Let_def split: prod.splits option.splits)
  then show ?thesis
    using p2 p3 p4 by (metis ev1_def prefix_order.trans)
qed

lemma translateStream_skip_no_choice:
  "\<forall>x\<in>set cs. choices x = [] \<Longrightarrow>
   translateStream mapStop (cs @ rest) s = translateStream mapStop rest s"
  by (induction cs) (simp_all add: translateChunkToAnthropicEvents_def)

text \<open>
  C9. A chunk whose choices array is empty yields no event and leaves the whole stream
  state as it was. Hence such chunks at the start of a connection emit no message_start:
  the first event of the connection is the message_start built from the first chunk that
  carries a choice.
\<close>

theorem empty_choices_chunk_is_skipped:
  "(choices chunk = [] \<longrightarrow>
      translateChunkToAnthropicEvents mapStop chunk state = ([], state))
   \<and> ((\<forall>x\<in>set cs. choices x = []) \<and> choices c \<noteq> [] \<longrightarrow>
        prefix [createMessageStartEvent c]
          (fst (translateStream mapStop (cs @ c # rest) freshStreamState)))"
proof (intro conjI impI)
  assume "choices chunk = []"
  then show "translateChunkToAnthropicEvents mapStop chunk state = ([], state)"
    by (simp add: translateChunkToAnthropicEvents_def)
next
  assume a: "(\<forall>x\<in>set cs. choices x = []) \<and> choices c \<noteq> []"
  have "prefix [createMessageStartEvent c]
          (fst (translateChunkToAnthropicEvents mapStop c freshStreamState))"
    using a by (intro translateChunk_message_start_first) (simp_all add: freshStreamState_def)
  moreover have "prefix (fst (translateChunkToAnthropicEvents mapStop c freshStreamState))
          (fst (translateStream mapStop (c # rest) freshStreamState))"
    by (simp add: Let_def split: prod.splits)
  ultimately show "prefix [createMessageStartEvent c]
          (fst (translateStream mapStop (cs @ c # rest) freshStreamState))"
    using a translateStream_skip_no_choice[of cs mapStop "c # rest" freshStreamState]
    by (metis prefix_order.trans)
qed

theorem empty_choices_chunk_is_skipped_witness:
  "choices (noChoiceChunk ''c0'' ''gpt-4'' None) = []
   \<and> translateChunkToAnthropicEvents (\<lambda>r. r) (noChoiceChunk ''c0'' ''gpt-4'' None)
        \<lparr>messageStartSent = True, contentBlockIndex = 2, contentBlockOpen = True,
         toolCalls = []\<rparr>
      = ([], \<lparr>messageStartSent = True, contentBlockIndex = 2, contentBlockOpen = True,
               toolCalls = []\<rparr>)
   \<and> choices (textChunk ''c1'' ''gpt-4'' None ''Hi'') \<noteq> []
   \<and> prefix [createMessageStartEvent (textChunk ''c1'' ''gpt-4'' None ''Hi'')]
        (fst (translateStream (\<lambda>r. r)
           [noChoiceChunk ''c0'' ''gpt-4'' None, textChunk ''c1'' ''gpt-4'' None ''Hi'']
           freshStreamState))"
  using empty_choices_chunk_is_skipped
    [of "noChoiceChunk ''c0'' ''gpt-4'' None" "\<lambda>r. r"
        "\<lparr>messageStartSent = True, contentBlockIndex = 2, contentBlockOpen = True,
          toolCalls = []\<rparr>"
        "[noChoiceChunk ''c0'' ''gpt-4'' None]" "textChunk ''c1'' ''gpt-4'' None ''Hi''" "[]"]
  by (simp add: noChoiceChunk_def textChunk_def)

text \<open>
  C5. From a fresh state, the chunks text "Hello", text " world", finish_reason stop
  produce exactly: message_start, content_block_start of a text block (index 0), two
  content_block_delta events carrying the two texts, content_block_stop (index 0),
  message_delta and message_stop, in this order and nothing else. This holds whatever
  the ids, models and usage fields of the three chunks are.
\<close>

theorem hello_world_stream_events:
  "fst (translateStream mapStop
          [textChunk i1 m1 u1 ''Hello'', textChunk i2 m2 u2 '' world'',
           finishChunk i3 m3 u3 Stop] freshStreamState)
   = [createMessageStartEvent (textChunk i1 m1 u1 ''Hello''),
      Content_block_start 0 (Text_block []),
      Content_block_delta 0 (Text_delta ''Hello''),
      Content_block_delta 0 (Text_delta '' world''),
      Content_block_stop 0,
      Message_delta (mapStop Stop)
        \<lparr>input_tokens = calculateInputTokens (finishChunk i3 m3 u3 Stop),
         output_tokens =
           (case u3 of None \<Rightarrow> 0
            | Some u \<Rightarrow> (case completion_tokens u of None \<Rightarrow> 0 | Some c \<Rightarrow> c)),
         cache_read_input_tokens = getCacheReadTokens (finishChunk i3 m3 u3 Stop)\<rparr>,
      Message_stop]
   \<and> map event_type
       (fst (translateStream mapStop
          [textChunk i1 m1 u1 ''Hello'', textChunk i2 m2 u2 '' world'',
           finishChunk i3 m3 u3 Stop] freshStreamState))
     = [''message_start'', ''content_block_start'', ''content_block_delta'',
        ''content_block_delta'', ''content_block_stop'', ''message_delta'',
        ''message_stop'']"
  by (simp add: translateChunkToAnthropicEvents_def textChunk_def finishChunk_def
      freshStreamState_def handleTextContent_def handleFinishReason_def isToolBlockOpen_def
      truthy_def createMessageStartEvent_def)


lemma open_after_append: "open_after cur (xs @ ys) = open_after (open_after cur xs) ys"
  by (induction cur xs rule: open_after.induct) simp_all

lemma bound_after_append: "bound_after lb (xs @ ys) = bound_after (bound_after lb xs) ys"
  by (induction lb xs rule: bound_after.induct) simp_all

lemma blocks_alternate_append:
  "blocks_alternate cur (xs @ ys)
     = (blocks_alternate cur xs \<and> blocks_alternate (open_after cur xs) ys)"
  by (induction cur xs rule: blocks_alternate.induct) auto

lemma blocks_ok_append:
  "blocks_ok cur lb (xs @ ys)
     = (blocks_ok cur lb xs \<and> blocks_ok (open_after cur xs) (bound_after lb xs) ys)"
  by (induction cur lb xs rule: blocks_ok.induct) auto

lemma blocks_ok_alternate: "blocks_ok cur lb es \<Longrightarrow> blocks_alternate cur es"
  by (induction cur lb es rule: blocks_ok.induct) auto

lemma step_ok_refl: "step_ok s [] s"
  by (simp add: step_ok_def)

lemma step_ok_trans: "step_ok s ev s' \<Longrightarrow> step_ok s' ev' s'' \<Longrightarrow> step_ok s (ev @ ev') s''"
  by (simp add: step_ok_def blocks_ok_append open_after_append bound_after_append)

lemma handleTextContent_ok:
  "step_ok s (snd (handleTextContent s t ([]::'r Event list)))
     (fst (handleTextContent s t ([]::'r Event list)))"
  by (simp add: step_ok_def handleTextContent_def closeContentBlock_def isToolBlockOpen_def
      openBlock_def nextBound_def Let_def)

lemma handleNewToolCall_ok:
  "step_ok s (snd (handleNewToolCall s i a b ([]::'r Event list)))
     (fst (handleNewToolCall s i a b ([]::'r Event list)))"
  by (simp add: step_ok_def handleNewToolCall_def closeContentBlock_def
      openBlock_def nextBound_def Let_def)

lemma handleToolCallArguments_ok:
  "step_ok s (handleToolCallArguments s i a ([]::'r Event list)) s"
  by (simp add: step_ok_def handleToolCallArguments_def split: option.splits)

lemma step_ok_alt: "step_ok s ev s' \<Longrightarrow> alt_ok s ev s'"
  using blocks_ok_alternate by (auto simp: step_ok_def alt_ok_def)

lemma alt_ok_trans: "alt_ok s ev s' \<Longrightarrow> alt_ok s' ev' s'' \<Longrightarrow> alt_ok s (ev @ ev') s''"
  by (simp add: alt_ok_def blocks_alternate_append open_after_append)

lemma handleToolCall_ok:
  "step_ok s (snd (handleToolCall tc (s, ([]::'r Event list))))
     (fst (handleToolCall tc (s, ([]::'r Event list))))"
proof -
  define nm where "nm = (case tc_function tc of None \<Rightarrow> None | Some f \<Rightarrow> fn_name f)"
  define ar where "ar = (case tc_function tc of None \<Rightarrow> None | Some f \<Rightarrow> fn_arguments f)"
  define new :: "AnthropicStreamState \<times> 'r Event list" where
    "new = (if truthy (tc_id tc) \<and> truthy nm
             then handleNewToolCall s (tc_index tc) (the (tc_id tc)) (the nm) []
             else (s, []))"
  have n: "step_ok s (snd new) (fst new)"
    by (simp add: new_def handleNewToolCall_ok step_ok_refl)
  have unf: "handleToolCall tc (s, ([]::'r Event list)) =
      (fst new, if truthy ar
              then handleToolCallArguments (fst new) (tc_index tc) (the ar) (snd new)
              else snd new)"
    by (simp add: handleToolCall_def new_def nm_def ar_def Let_def split: prod.splits)
  show ?thesis
  proof (cases "truthy ar")
    case True
    have "handleToolCallArguments (fst new) (tc_index tc) (the ar) (snd new)
            = snd new @ handleToolCallArguments (fst new) (tc_index tc) (the ar) []"
      by (rule handleToolCallArguments_acc)
    then show ?thesis
      using step_ok_trans[OF n handleToolCallArguments_ok[of "fst new" "tc_index tc" "the ar"]] True
      by (simp add: unf)
  next
    case False
    then show ?thesis using n by (simp add: unf)
  qed
qed

lemma handleToolCalls_ok:
  "step_ok s (snd (handleToolCalls tcs (s, ([]::'r Event list))))
     (fst (handleToolCalls tcs (s, ([]::'r Event list))))"
proof (induction tcs arbitrary: s)
  case Nil
  then show ?case by (simp add: step_ok_refl)
next
  case (Cons tc tcs)
  obtain s1 and e1 :: "'r Event list" where h: "handleToolCall tc (s, []) = (s1, e1)" by fastforce
  have one: "step_ok s e1 s1"
    using handleToolCall_ok[of s tc, where ?'r = 'r] by (simp add: h)
  have "handleToolCalls tcs (s1, e1)
          = (fst (handleToolCalls tcs (s1, ([]::'r Event list))),
             e1 @ snd (handleToolCalls tcs (s1, ([]::'r Event list))))"
    by (rule handleToolCalls_acc)
  then show ?case
    using step_ok_trans[OF one Cons.IH[of s1]] by (simp add: h)
qed

lemma handleFinishReason_blocks:
  "blocks_ok (openBlock s) (nextBound s) (snd (handleFinishReason m c s fr ([]::'r Event list)))"
  "alt_ok s (snd (handleFinishReason m c s fr ([]::'r Event list)))
     (fst (handleFinishReason m c s fr ([]::'r Event list)))"
  by (simp_all add: handleFinishReason_def alt_ok_def openBlock_def nextBound_def)

text \<open>The part of a chunk's translation that precedes the finish reason.\<close>

lemma translateChunk_before_finish:
  assumes c: "choices c = choice # others"
  shows "\<exists>s3 ev3. step_ok s ev3 s3
           \<and> translateChunkToAnthropicEvents mapStop c s =
               (case finish_reason choice of
                  None \<Rightarrow> (ev3, s3)
                | Some fr \<Rightarrow> (ev3 @ snd (handleFinishReason mapStop c s3 fr []),
                             fst (handleFinishReason mapStop c s3 fr ([]::'r Event list))))"
proof -
  define r1 :: "AnthropicStreamState \<times> 'r Event list" where
    "r1 = (if \<not> messageStartSent s
           then (s\<lparr>messageStartSent := True\<rparr>, [createMessageStartEvent c])
           else (s, []))"
  define r2 where "r2 = (if truthy (content (delta choice))
                  then handleTextContent (fst r1) (the (content (delta choice))) (snd r1)
                  else r1)"
  define r3 where "r3 = (case tool_calls (delta choice) of
                    None \<Rightarrow> r2
                  | Some tcs \<Rightarrow> handleToolCalls tcs r2)"
  have ok1: "step_ok s (snd r1) (fst r1)"
    by (simp add: r1_def step_ok_def openBlock_def nextBound_def createMessageStartEvent_def)
  have ok2: "step_ok s (snd r2) (fst r2)"
  proof (cases "truthy (content (delta choice))")
    case True
    have "handleTextContent (fst r1) (the (content (delta choice))) (snd r1)
           = (fst (handleTextContent (fst r1) (the (content (delta choice))) ([]::'r Event list)),
              snd r1 @ snd (handleTextContent (fst r1) (the (content (delta choice)))
                               ([]::'r Event list)))"
      by (rule handleTextContent_acc)
    then show ?thesis
      using step_ok_trans[OF ok1 handleTextContent_ok[of "fst r1" "the (content (delta choice))"]]
        True by (simp add: r2_def)
  next
    case False
    then show ?thesis using ok1 by (simp add: r2_def)
  qed
  have ok3: "step_ok s (snd r3) (fst r3)"
  proof (cases "tool_calls (delta choice)")
    case None
    then show ?thesis using ok2 by (simp add: r3_def)
  next
    case (Some tcs)
    have "handleToolCalls tcs (fst r2, snd r2)
          = (fst (handleToolCalls tcs (fst r2, ([]::'r Event list))),
             snd r2 @ snd (handleToolCalls tcs (fst r2, ([]::'r Event list))))"
      by (rule handleToolCalls_acc)
    then show ?thesis
      using step_ok_trans[OF ok2 handleToolCalls_ok[of "fst r2" tcs]] Some by (simp add: r3_def)
  qed
  have fin: "handleFinishReason mapStop c (fst r3) fr (snd r3)
        = (fst (handleFinishReason mapStop c (fst r3) fr ([]::'r Event list)),
           snd r3 @ snd (handleFinishReason mapStop c (fst r3) fr ([]::'r Event list)))" for fr
    by (rule handleFinishReason_acc)
  have "translateChunkToAnthropicEvents mapStop c s =
               (case finish_reason choice of
                  None \<Rightarrow> (snd r3, fst r3)
                | Some fr \<Rightarrow> (snd (handleFinishReason mapStop c (fst r3) fr (snd r3)),
                             fst (handleFinishReason mapStop c (fst r3) fr (snd r3))))"
    by (simp add: translateChunkToAnthropicEvents_def c r3_def r2_def r1_def Let_def
        split: prod.splits option.splits)
  then have "translateChunkToAnthropicEvents mapStop c s =
               (case finish_reason choice of
                  None \<Rightarrow> (snd r3, fst r3)
                | Some fr \<Rightarrow> (snd r3 @ snd (handleFinishReason mapStop c (fst r3) fr []),
                             fst (handleFinishReason mapStop c (fst r3) fr ([]::'r Event list))))"
    using fin by (simp split: option.splits)
  then show ?thesis using ok3 by blast
qed

lemma translateChunk_no_finish:
  assumes "noFinish c"
  shows "step_ok s (fst (translateChunkToAnthropicEvents mapStop c s))
           (snd (translateChunkToAnthropicEvents mapStop c s))"
proof (cases "choices c")
  case Nil
  then show ?thesis by (simp add: translateChunkToAnthropicEvents_def step_ok_refl)
next
  case (Cons choice others)
  then have "finish_reason choice = None" using assms by (simp add: noFinish_def)
  then show ?thesis
    using translateChunk_before_finish[OF Cons, of s mapStop] by auto
qed

lemma translateChunk_blocks:
  "blocks_ok (openBlock s) (nextBound s) (fst (translateChunkToAnthropicEvents mapStop c s))"
  "alt_ok s (fst (translateChunkToAnthropicEvents mapStop c s))
     (snd (translateChunkToAnthropicEvents mapStop c s))"
proof -
  have "blocks_ok (openBlock s) (nextBound s) (fst (translateChunkToAnthropicEvents mapStop c s))
        \<and> alt_ok s (fst (translateChunkToAnthropicEvents mapStop c s))
            (snd (translateChunkToAnthropicEvents mapStop c s))"
  proof (cases "choices c")
    case Nil
    then show ?thesis by (simp add: translateChunkToAnthropicEvents_def alt_ok_def)
  next
    case (Cons choice others)
    obtain s3 and ev3 :: "'a Event list" where p: "step_ok s ev3 s3"
      "translateChunkToAnthropicEvents mapStop c s =
               (case finish_reason choice of
                  None \<Rightarrow> (ev3, s3)
                | Some fr \<Rightarrow> (ev3 @ snd (handleFinishReason mapStop c s3 fr []),
                             fst (handleFinishReason mapStop c s3 fr ([]::'a Event list))))"
      using translateChunk_before_finish[OF Cons, of s mapStop] by blast
    show ?thesis
    proof (cases "finish_reason choice")
      case None
      then show ?thesis using p step_ok_alt[OF p(1)] by (simp add: step_ok_def)
    next
      case (Some fr)
      have "blocks_ok (openBlock s) (nextBound s)
              (ev3 @ snd (handleFinishReason mapStop c s3 fr ([]::'a Event list)))"
        using p(1) handleFinishReason_blocks(1)[of s3 mapStop c fr]
        by (simp add: blocks_ok_append step_ok_def)
      moreover have "alt_ok s (ev3 @ snd (handleFinishReason mapStop c s3 fr ([]::'a Event list)))
              (fst (handleFinishReason mapStop c s3 fr ([]::'a Event list)))"
        by (rule alt_ok_trans[OF step_ok_alt[OF p(1)] handleFinishReason_blocks(2)])
      ultimately show ?thesis using p(2) Some by simp
    qed
  qed
  then show "blocks_ok (openBlock s) (nextBound s) (fst (translateChunkToAnthropicEvents mapStop c s))"
    and "alt_ok s (fst (translateChunkToAnthropicEvents mapStop c s))
     (snd (translateChunkToAnthropicEvents mapStop c s))" by simp_all
qed

lemma translateStream_Cons:
  "fst (translateStream mapStop (c # cs) s)
     = fst (translateChunkToAnthropicEvents mapStop c s)
       @ fst (translateStream mapStop cs (snd (translateChunkToAnthropicEvents mapStop c s)))"
  "snd (translateStream mapStop (c # cs) s)
     = snd (translateStream mapStop cs (snd (translateChunkToAnthropicEvents mapStop c s)))"
  by (simp_all split: prod.splits)

text \<open>For every chunk sequence, the block starts and stops alternate: a block is opened
  only when none is open, and a stop closes the block that is open.\<close>

lemma translateStream_alternates:
  "alt_ok s (fst (translateStream mapStop cs s)) (snd (translateStream mapStop cs s))"
proof (induction cs arbitrary: s)
  case Nil
  then show ?case by (simp add: alt_ok_def)
next
  case (Cons c cs)
  show ?case
    unfolding translateStream_Cons
    by (rule alt_ok_trans[OF translateChunk_blocks(2) Cons.IH])
qed

text \<open>When no chunk but the last carries a finish reason, the block indices are also
  strictly increasing.\<close>

lemma translateStream_blocks_ok:
  "\<forall>c\<in>set (butlast cs). noFinish c \<Longrightarrow>
   blocks_ok (openBlock s) (nextBound s) (fst (translateStream mapStop cs s))"
proof (induction cs arbitrary: s)
  case Nil
  then show ?case by simp
next
  case (Cons c cs)
  show ?case
  proof (cases "cs = []")
    case True
    then show ?thesis using translateChunk_blocks(1)[of s mapStop c] by (simp split: prod.splits)
  next
    case False
    then have nf: "noFinish c" and rest: "\<forall>c\<in>set (butlast cs). noFinish c"
      using Cons.prems by simp_all
    have "step_ok s (fst (translateChunkToAnthropicEvents mapStop c s))
            (snd (translateChunkToAnthropicEvents mapStop c s))"
      by (rule translateChunk_no_finish[OF nf])
    then show ?thesis
      unfolding translateStream_Cons
      using Cons.IH[OF rest, of "snd (translateChunkToAnthropicEvents mapStop c s)"]
      by (simp add: blocks_ok_append step_ok_def)
  qed
qed

text \<open>
  C6. The claim fails on a connection that goes on after a chunk with a finish reason:
  \<open>handleFinishReason\<close> closes the open block without advancing \<open>contentBlockIndex\<close>
  (as \<open>closeContentBlock\<close> does), so the text that follows opens a block with index 0
  again. The events below are those of text "Hello", finish_reason stop, text " again".
\<close>

theorem block_index_reused_after_finish:
  "fst (translateStream (\<lambda>r. r)
          [textChunk ''c1'' ''gpt-4'' None ''Hello'', finishChunk ''c1'' ''gpt-4'' None Stop,
           textChunk ''c1'' ''gpt-4'' None '' again''] freshStreamState)
   = [Message_start ''c1'' ''gpt-4''
        \<lparr>input_tokens = 0, output_tokens = 0, cache_read_input_tokens = None\<rparr>,
      Content_block_start 0 (Text_block []),
      Content_block_delta 0 (Text_delta ''Hello''),
      Content_block_stop 0,
      Message_delta Stop \<lparr>input_tokens = 0, output_tokens = 0, cache_read_input_tokens = None\<rparr>,
      Message_stop,
      Content_block_start 0 (Text_block []),
      Content_block_delta 0 (Text_delta '' again'')]
   \<and> startIndices (fst (translateStream (\<lambda>r. r)
          [textChunk ''c1'' ''gpt-4'' None ''Hello'', finishChunk ''c1'' ''gpt-4'' None Stop,
           textChunk ''c1'' ''gpt-4'' None '' again''] freshStreamState)) = [0, 0]
   \<and> \<not> blocks_ok None 0 (fst (translateStream (\<lambda>r. r)
          [textChunk ''c1'' ''gpt-4'' None ''Hello'', finishChunk ''c1'' ''gpt-4'' None Stop,
           textChunk ''c1'' ''gpt-4'' None '' again''] freshStreamState))"
  by (simp add: translateChunkToAnthropicEvents_def textChunk_def finishChunk_def
      freshStreamState_def handleTextContent_def handleFinishReason_def isToolBlockOpen_def
      truthy_def createMessageStartEvent_def calculateInputTokens_def getCacheReadTokens_def)

section \<open>Properties of the request cache\<close>

lemma first_simps [simp]: "first [] = None" "first (a # as) = Some a"
  by (simp_all add: first_def)

lemma lastopt_simps [simp]: "lastopt [] = None" "lastopt (xs @ [a]) = Some a"
  by (simp_all add: lastopt_def)

lemma first_append: "first (xs @ ys) = (if xs = [] then first ys else first xs)"
  by (cases xs) simp_all

lemma lastopt_append: "lastopt (xs @ ys) = (if ys = [] then lastopt xs else lastopt ys)"
  by (simp add: lastopt_def)

lemma lastopt_Cons: "lastopt (a # as) = (if as = [] then Some a else lastopt as)"
  by (simp add: lastopt_def)

lemma dseg_frame: "a \<notin> set as \<Longrightarrow> dseg (h(a := v)) p as n = dseg h p as n"
  by (induction as arbitrary: p) auto

lemma dseg_append:
  "dseg h p (xs @ ys) n =
     (dseg h p xs (if ys = [] then n else first ys)
      \<and> dseg h (if xs = [] then p else lastopt xs) ys n)"
proof (induction xs arbitrary: p)
  case Nil
  then show ?case by simp
next
  case (Cons x xs)
  show ?case
    by (simp add: Cons.IH first_append lastopt_Cons)
qed

lemma dseg_setNext_last:
  "distinct (xs @ [a]) \<Longrightarrow> dseg h p (xs @ [a]) n \<Longrightarrow> dseg (setNext a n' h) p (xs @ [a]) n'"
  by (simp add: dseg_append setNext_def dseg_frame)

lemma dseg_setPrev_first:
  "distinct (a # as) \<Longrightarrow> dseg h p (a # as) n \<Longrightarrow> dseg (setPrev a p' h) p' (a # as) n"
  by (simp add: setPrev_def dseg_frame)

lemma walk_None [simp]: "walk h fuel None = []"
  by (cases fuel) simp_all

lemma walk_dseg:
  "dseg h p as None \<Longrightarrow> length as \<le> fuel \<Longrightarrow> walk h fuel (first as) = as"
proof (induction as arbitrary: p fuel)
  case Nil
  then show ?case by simp
next
  case (Cons a as)
  then obtain f where f: "fuel = Suc f" by (cases fuel) auto
  have "walk h f (node_next (h a)) = as"
  proof (cases "as = []")
    case True
    then show ?thesis using Cons.prems by simp
  next
    case False
    then show ?thesis using Cons.prems Cons.IH[of "Some a" f] by (simp add: f)
  qed
  then show ?case by (simp add: f)
qed


lemma node_key_setPrev [simp]: "node_key (setPrev a v h b) = node_key (h b)"
  by (simp add: setPrev_def)

lemma node_key_setNext [simp]: "node_key (setNext a v h b) = node_key (h b)"
  by (simp add: setNext_def)

lemma setPrev_other [simp]: "b \<noteq> a \<Longrightarrow> setPrev a v h b = h b"
  by (simp add: setPrev_def)

lemma setNext_other [simp]: "b \<noteq> a \<Longrightarrow> setNext a v h b = h b"
  by (simp add: setNext_def)

lemma dseg_setPrev_frame: "a \<notin> set as \<Longrightarrow> dseg (setPrev a v h) p as n = dseg h p as n"
  by (simp add: setPrev_def dseg_frame)

lemma dseg_setNext_frame: "a \<notin> set as \<Longrightarrow> dseg (setNext a v h) p as n = dseg h p as n"
  by (simp add: setNext_def dseg_frame)

lemma moveToFront_linked:
  assumes "lru_linked s (xs @ a # ys)"
  shows "lru_linked (moveToFront a s) (a # xs @ ys)"
proof (cases "xs = []")
  case True
  then show ?thesis using assms by (simp add: lru_linked_def moveToFront_def)
next
  case False
  then obtain xs' l where xs: "xs = xs' @ [l]" by (metis rev_exhaust)
  obtain f fs where xsf: "xs = f # fs" using False by (cases xs) auto
  define h where "h = heap s"
  have dist: "distinct (xs @ a # ys)" and seg: "dseg h None (xs @ a # ys) None"
    and hd: "lruHead s = Some f" and tl: "lruTail s = lastopt (xs @ a # ys)"
    using assms by (simp_all add: lru_linked_def h_def xsf)
  have "l \<in> set xs" by (simp add: xs)
  moreover have "f \<in> set xs" by (simp add: xsf)
  ultimately have la: "l \<noteq> a" "l \<notin> set ys" "a \<notin> set xs" "a \<notin> set ys" "f \<noteq> a"
    using dist by auto
  have segx: "dseg h None xs (Some a)" and prev_a: "node_prev (h a) = Some l"
    and next_a: "node_next (h a) = (if ys = [] then None else first ys)"
    and segy: "dseg h (Some a) ys None"
    using seg by (simp_all add: dseg_append xs)
  define h1 where "h1 = (case node_prev (h a) of
                    Some p \<Rightarrow> setNext p (node_next (h a)) h | None \<Rightarrow> h)"
  have h1': "h1 = setNext l (node_next (h a)) h" by (simp add: h1_def prev_a)
  have h1a: "h1 a = h a" using la by (simp add: h1')
  have segx1: "dseg h1 None xs (node_next (h a))"
    unfolding h1' xs using dseg_setNext_last[of xs' l h None "Some a"] segx dist xs by simp
  have segy1: "dseg h1 (Some a) ys None"
    unfolding h1' using segy la by (simp add: dseg_setNext_frame)
  define h2 where "h2 = (case node_next (h1 a) of
                    Some n \<Rightarrow> setPrev n (node_prev (h1 a)) h1 | None \<Rightarrow> h1)"
  have seg2: "dseg h2 None (xs @ ys) None" and h2a: "h2 a = h a"
  proof -
    show "dseg h2 None (xs @ ys) None"
    proof (cases ys)
      case Nil
      then show ?thesis using segx1 next_a by (simp add: h2_def h1a)
    next
      case (Cons y ys')
      have y: "y \<notin> set xs" "y \<noteq> a" "distinct (y # ys')" using dist Cons by auto
      have "h2 = setPrev y (Some l) h1" using next_a prev_a Cons by (simp add: h2_def h1a)
      moreover have "dseg (setPrev y (Some l) h1) (Some l) (y # ys') None"
        using dseg_setPrev_first[OF y(3)] segy1 Cons by blast
      moreover have "dseg (setPrev y (Some l) h1) None xs (Some y)"
        using segx1 next_a Cons y by (simp add: dseg_setPrev_frame)
      ultimately show ?thesis using Cons False by (simp add: dseg_append xs)
    qed
    show "h2 a = h a"
      using next_a dist by (cases ys) (auto simp: h2_def h1a)
  qed
  define tail1 where "tail1 = (if lruTail s = Some a then node_prev (h2 a) else lruTail s)"
  have tail1: "tail1 = lastopt (xs @ ys)"
  proof (cases "ys = []")
    case True
    then show ?thesis using tl prev_a by (simp add: tail1_def h2a xs lastopt_def)
  next
    case False
    then have "last ys \<in> set ys" by simp
    then have "last ys \<noteq> a" using la by metis
    then show ?thesis using tl False by (simp add: tail1_def lastopt_def)
  qed
  define h3 where "h3 = setPrev a None h2"
  define h4 where "h4 = setNext a (lruHead s) h3"
  have seg4: "dseg h4 None (xs @ ys) None"
    using seg2 la by (simp add: h4_def h3_def dseg_setPrev_frame dseg_setNext_frame)
  have h4a: "node_prev (h4 a) = None" "node_next (h4 a) = Some f"
    by (simp_all add: h4_def h3_def setNext_def setPrev_def hd)
  define h5 where "h5 = (case lruHead s of Some front \<Rightarrow> setPrev front (Some a) h4 | None \<Rightarrow> h4)"
  have h5': "h5 = setPrev f (Some a) h4" by (simp add: h5_def hd)
  have seg5: "dseg h5 (Some a) (xs @ ys) None"
    using dseg_setPrev_first[of f "fs @ ys" h4 None None "Some a"] seg4 dist
    by (simp add: h5' xsf)
  have h5a: "node_prev (h5 a) = None" "node_next (h5 a) = Some f"
    using h4a la by (simp_all add: h5')
  define tail2 where "tail2 = (case tail1 of None \<Rightarrow> Some a | Some t \<Rightarrow> Some t)"
  have tail2: "tail2 = lastopt (a # xs @ ys)"
    using False by (simp add: tail2_def tail1 lastopt_def)
  have ne: "lruHead s \<noteq> Some a" using hd la by simp
  have res: "moveToFront a s = s\<lparr>heap := h5, lruHead := Some a, lruTail := tail2\<rparr>"
    by (simp only: moveToFront_def Let_def h5_def h4_def h3_def tail2_def tail1_def h2_def
        h1_def h_def ne if_False)
  show ?thesis
    using seg5 h5a dist False
    by (simp add: res lru_linked_def xsf tail2[unfolded xsf])
qed

lemma addToFront_linked:
  assumes "lru_linked s as" and "nextAddr s \<notin> set as"
  shows "lru_linked (addToFront k s) (nextAddr s # as)"
proof (cases as)
  case Nil
  then show ?thesis
    using assms by (simp add: lru_linked_def addToFront_def Let_def lastopt_def)
next
  case (Cons f fs)
  define node where "node = nextAddr s"
  define h1 where "h1 = (heap s)(node := \<lparr>node_key = k, node_prev = None, node_next = lruHead s\<rparr>)"
  have dist: "distinct (f # fs)" and seg: "dseg (heap s) None (f # fs) None"
    and hd: "lruHead s = Some f" and tl: "lruTail s = Some (last (f # fs))"
    and fresh: "node \<noteq> f" "node \<notin> set fs"
    using assms Cons by (auto simp: lru_linked_def lastopt_def node_def)
  have nin: "node \<notin> set (f # fs)" using fresh by simp
  have seg1: "dseg h1 None (f # fs) None"
    unfolding h1_def by (simp only: dseg_frame[OF nin] seg)
  have seg2: "dseg (setPrev f (Some node) h1) (Some node) (f # fs) None"
    using dseg_setPrev_first[OF dist seg1] .
  have n2: "setPrev f (Some node) h1 node = \<lparr>node_key = k, node_prev = None, node_next = Some f\<rparr>"
    using fresh by (simp add: h1_def hd)
  have res: "addToFront k s =
      s\<lparr>heap := setPrev f (Some node) h1, nextAddr := node + 1, lruHead := Some node,
        lruTail := Some (last (f # fs)), lruNodes := AList.update k node (lruNodes s)\<rparr>"
    by (simp add: addToFront_def Let_def hd tl node_def h1_def)
  show ?thesis
    unfolding res lru_linked_def Cons node_def[symmetric]
    using seg2 n2 dist fresh by (simp add: lastopt_def)
qed

lemma removeTail_empty: "lru_linked s [] \<Longrightarrow> removeTail s = (None, s)"
  by (simp add: lru_linked_def removeTail_def)

lemma removeTail_linked:
  assumes "lru_linked s (xs @ [t])"
  shows "fst (removeTail s) = Some (node_key (heap s t))"
    and "lru_linked (snd (removeTail s)) xs"
    and "lruNodes (snd (removeTail s)) = AList.delete (node_key (heap s t)) (lruNodes s)"
proof -
  have dist: "distinct (xs @ [t])" and seg: "dseg (heap s) None (xs @ [t]) None"
    and hd: "lruHead s = first (xs @ [t])" and tl: "lruTail s = Some t"
    using assms by (simp_all add: lru_linked_def)
  have prev_t: "node_prev (heap s t) = lastopt xs" and segx: "dseg (heap s) None xs (Some t)"
    using seg by (simp_all add: dseg_append lastopt_def)
  show "fst (removeTail s) = Some (node_key (heap s t))"
    by (simp add: removeTail_def tl Let_def)
  show "lruNodes (snd (removeTail s)) = AList.delete (node_key (heap s t)) (lruNodes s)"
    by (simp add: removeTail_def tl Let_def split: option.splits)
  show "lru_linked (snd (removeTail s)) xs"
  proof (cases xs rule: rev_cases)
    case Nil
    then show ?thesis using prev_t by (simp add: removeTail_def tl Let_def lru_linked_def)
  next
    case (snoc xs' p)
    have "dseg (setNext p None (heap s)) None (xs' @ [p]) None"
      using dseg_setNext_last[of xs' p "heap s" None "Some t" None] segx dist snoc by simp
    then show ?thesis
      using prev_t dist hd snoc
      by (simp add: removeTail_def tl Let_def lru_linked_def first_append)
  qed
qed

lemma removeNode_linked:
  assumes "lru_linked s (xs @ a # ys)" and "map_of (lruNodes s) k = Some a"
  shows "lru_linked (removeNode k s) (xs @ ys)"
proof -
  define h where "h = heap s"
  have dist: "distinct (xs @ a # ys)" and seg: "dseg h None (xs @ a # ys) None"
    and hd: "lruHead s = first (xs @ a # ys)" and tl: "lruTail s = lastopt (xs @ a # ys)"
    using assms by (simp_all add: lru_linked_def h_def)
  have segx: "dseg h None xs (Some a)"
    and prev_a: "node_prev (h a) = lastopt xs"
    and next_a: "node_next (h a) = first ys"
    and segy: "dseg h (Some a) ys None"
    using seg by (auto simp: dseg_append lastopt_def)
  define h1 where "h1 = (case node_prev (h a) of
                       Some p \<Rightarrow> setNext p (node_next (h a)) h | None \<Rightarrow> h)"
  have h1a: "h1 a = h a"
    using prev_a dist by (cases xs rule: rev_cases) (auto simp: h1_def)
  have segx1: "dseg h1 None xs (first ys)"
  proof (cases xs rule: rev_cases)
    case Nil
    then show ?thesis by simp
  next
    case (snoc xs' l)
    then show ?thesis
      using dseg_setNext_last[of xs' l h None "Some a" "first ys"] segx dist prev_a next_a
      by (simp add: h1_def)
  qed
  have segy1: "dseg h1 (Some a) ys None"
  proof (cases xs rule: rev_cases)
    case Nil
    then show ?thesis using segy prev_a by (simp add: h1_def)
  next
    case (snoc xs' l)
    then show ?thesis
      using segy dist prev_a by (simp add: h1_def dseg_setNext_frame)
  qed
  define h2 where "h2 = (case node_next (h1 a) of
                       Some n \<Rightarrow> setPrev n (node_prev (h1 a)) h1 | None \<Rightarrow> h1)"
  have h2a: "h2 a = h a"
    using next_a dist by (cases ys) (auto simp: h2_def h1a)
  have seg2: "dseg h2 None (xs @ ys) None"
  proof (cases ys)
    case Nil
    then show ?thesis using segx1 next_a by (simp add: h2_def h1a)
  next
    case (Cons y ys')
    have y: "y \<notin> set xs" "distinct (y # ys')" using dist Cons by auto
    have h2': "h2 = setPrev y (lastopt xs) h1"
      using next_a prev_a Cons by (simp add: h2_def h1a)
    have "dseg h2 (lastopt xs) (y # ys') None"
      unfolding h2' using dseg_setPrev_first[OF y(2)] segy1 Cons by blast
    moreover have "dseg h2 None xs (Some y)"
      unfolding h2' using segx1 Cons y by (simp add: dseg_setPrev_frame)
    ultimately show ?thesis using Cons by (simp add: dseg_append)
  qed
  define head1 where "head1 = (if lruHead s = Some a then node_next (h2 a) else lruHead s)"
  define tail1 where "tail1 = (if lruTail s = Some a then node_prev (h2 a) else lruTail s)"
  have head1: "head1 = first (xs @ ys)"
    using hd next_a dist by (cases xs) (auto simp: head1_def h2a)
  have tail1: "tail1 = lastopt (xs @ ys)"
  proof (cases "ys = []")
    case True
    then show ?thesis using tl prev_a by (simp add: tail1_def h2a lastopt_def)
  next
    case False
    then have "last ys \<in> set ys" by simp
    then have "last ys \<noteq> a" using dist by auto
    then show ?thesis using tl False by (simp add: tail1_def lastopt_def)
  qed
  have res: "removeNode k s = s\<lparr>heap := h2, lruHead := head1, lruTail := tail1,
                lruNodes := AList.delete k (lruNodes s)\<rparr>"
    by (simp only: removeNode_def assms(2) option.case Let_def h2_def h1_def h_def
        head1_def tail1_def)
  show ?thesis
    using seg2 dist by (simp add: res lru_linked_def head1 tail1)
qed

lemma moveToFront_fields [simp]:
  "cache (moveToFront a s) = cache s"
  "lruNodes (moveToFront a s) = lruNodes s"
  "nextAddr (moveToFront a s) = nextAddr s"
  "cacheConfig (moveToFront a s) = cacheConfig s"
  "stats_hits (moveToFront a s) = stats_hits s"
  "stats_misses (moveToFront a s) = stats_misses s"
  "savedTokens (moveToFront a s) = savedTokens s"
  "isDirty (moveToFront a s) = isDirty s"
  by (simp_all add: moveToFront_def Let_def)

lemma moveToFront_key [simp]: "node_key (heap (moveToFront a s) b) = node_key (heap s b)"
  by (simp add: moveToFront_def Let_def split: option.splits)

lemma addToFront_fields [simp]:
  "cache (addToFront k s) = cache s"
  "lruNodes (addToFront k s) = AList.update k (nextAddr s) (lruNodes s)"
  "nextAddr (addToFront k s) = nextAddr s + 1"
  "cacheConfig (addToFront k s) = cacheConfig s"
  "stats_hits (addToFront k s) = stats_hits s"
  "stats_misses (addToFront k s) = stats_misses s"
  "savedTokens (addToFront k s) = savedTokens s"
  "isDirty (addToFront k s) = isDirty s"
  by (simp_all add: addToFront_def Let_def)

lemma addToFront_key [simp]:
  "node_key (heap (addToFront k s) b) = (if b = nextAddr s then k else node_key (heap s b))"
  by (simp add: addToFront_def Let_def setPrev_def split: option.splits)

lemma removeTail_fields [simp]:
  "cache (snd (removeTail s)) = cache s"
  "nextAddr (snd (removeTail s)) = nextAddr s"
  "cacheConfig (snd (removeTail s)) = cacheConfig s"
  "stats_hits (snd (removeTail s)) = stats_hits s"
  "stats_misses (snd (removeTail s)) = stats_misses s"
  "savedTokens (snd (removeTail s)) = savedTokens s"
  "isDirty (snd (removeTail s)) = isDirty s"
  by (simp_all add: removeTail_def Let_def split: option.splits)

lemma removeTail_key [simp]: "node_key (heap (snd (removeTail s)) b) = node_key (heap s b)"
  by (simp add: removeTail_def Let_def split: option.splits)

lemma removeNode_fields [simp]:
  "cache (removeNode k s) = cache s"
  "nextAddr (removeNode k s) = nextAddr s"
  "cacheConfig (removeNode k s) = cacheConfig s"
  "stats_hits (removeNode k s) = stats_hits s"
  "stats_misses (removeNode k s) = stats_misses s"
  "savedTokens (removeNode k s) = savedTokens s"
  "isDirty (removeNode k s) = isDirty s"
  by (simp_all add: removeNode_def Let_def split: option.splits)

lemma removeNode_lruNodes [simp]: "lruNodes (removeNode k s) = AList.delete k (lruNodes s)"
proof (cases "map_of (lruNodes s) k")
  case None
  then have "k \<notin> fst ` set (lruNodes s)" by (simp add: map_of_eq_None_iff)
  then show ?thesis using None by (simp add: removeNode_def)
next
  case (Some a)
  then show ?thesis by (simp add: removeNode_def Let_def)
qed

lemma removeNode_key [simp]: "node_key (heap (removeNode k s) b) = node_key (heap s b)"
  by (simp add: removeNode_def Let_def split: option.splits)

lemma nodeKeys_cong: "(\<And>b. node_key (heap s' b) = node_key (heap s b)) \<Longrightarrow> nodeKeys s' as = nodeKeys s as"
  by (simp add: nodeKeys_def)

lemma wf_linked: "wf_lru s as \<Longrightarrow> lru_linked s as"
  unfolding wf_lru_def by (elim conjE)

lemma wf_node_registered:
  assumes "wf_lru s as" and "a \<in> set as"
  shows "map_of (lruNodes s) (node_key (heap s a)) = Some a"
proof -
  have "\<forall>a\<in>set as. map_of (lruNodes s) (node_key (heap s a)) = Some a"
    using assms(1) unfolding wf_lru_def list_all_iff by (elim conjE)
  then show ?thesis using assms(2) by (rule bspec)
qed

lemma wf_node_keys: "wf_lru s as \<Longrightarrow> set (map fst (lruNodes s)) = set (nodeKeys s as)"
  unfolding wf_lru_def by (elim conjE)

lemma wf_cache_keys: "wf_lru s as \<Longrightarrow> set (map fst (cache s)) = set (nodeKeys s as)"
  unfolding wf_lru_def by (elim conjE)

lemma wf_distinct_nodes: "wf_lru s as \<Longrightarrow> distinct (map fst (lruNodes s))"
  unfolding wf_lru_def by (elim conjE)

lemma wf_distinct_cache: "wf_lru s as \<Longrightarrow> distinct (map fst (cache s))"
  unfolding wf_lru_def by (elim conjE)

lemma wf_nonempty_keys: "wf_lru s as \<Longrightarrow> [] \<notin> set (map fst (cache s))"
  unfolding wf_lru_def by (elim conjE)

lemma wf_below_next:
  assumes "wf_lru s as" and "a \<in> set as"
  shows "a < nextAddr s"
proof -
  have "\<forall>a\<in>set as. a < nextAddr s"
    using assms(1) unfolding wf_lru_def list_all_iff by (elim conjE)
  then show ?thesis using assms(2) by (rule bspec)
qed

lemma wf_key_inj:
  assumes "wf_lru s as" "a \<in> set as" "b \<in> set as" "node_key (heap s a) = node_key (heap s b)"
  shows "a = b"
proof -
  have "Some a = map_of (lruNodes s) (node_key (heap s a))"
    using wf_node_registered[OF assms(1,2)] by (rule sym)
  also have "\<dots> = map_of (lruNodes s) (node_key (heap s b))"
    by (simp only: assms(4))
  also have "\<dots> = Some b"
    using wf_node_registered[OF assms(1,3)] .
  finally show ?thesis by (simp only: option.inject)
qed

lemma wf_distinct_keys:
  assumes "wf_lru s as"
  shows "distinct (nodeKeys s as)"
proof -
  have "distinct as" using wf_linked[OF assms] by (simp add: lru_linked_def)
  moreover have "inj_on (\<lambda>a. node_key (heap s a)) (set as)"
    by (rule inj_onI) (rule wf_key_inj[OF assms])
  ultimately show ?thesis by (simp add: nodeKeys_def distinct_map)
qed

lemma wf_lengths:
  assumes "wf_lru s as"
  shows "length (lruNodes s) = length as" and "length (cache s) = length as"
proof -
  have d: "distinct (nodeKeys s as)" using assms by (rule wf_distinct_keys)
  have "card (set (map fst (lruNodes s))) = card (set (nodeKeys s as))"
    using wf_node_keys[OF assms] by simp
  then have "length (map fst (lruNodes s)) = length (nodeKeys s as)"
    using distinct_card[OF d] distinct_card[OF wf_distinct_nodes[OF assms]] by simp
  then show "length (lruNodes s) = length as" by (simp add: nodeKeys_def)
  have "card (set (map fst (cache s))) = card (set (nodeKeys s as))"
    using wf_cache_keys[OF assms] by simp
  then have "length (map fst (cache s)) = length (nodeKeys s as)"
    using distinct_card[OF d] distinct_card[OF wf_distinct_cache[OF assms]] by simp
  then show "length (cache s) = length as" by (simp add: nodeKeys_def)
qed

lemma wf_lruList: "wf_lru s as \<Longrightarrow> lruList s = as"
  using walk_dseg[of "heap s" None as "length (lruNodes s)"] wf_lengths(1)[of s as]
    wf_linked[of s as]
  by (simp add: lruList_def lru_linked_def)

lemma cache_inv_iff: "cache_inv s \<longleftrightarrow> (\<exists>as. wf_lru s as)"
  using wf_lruList by (auto simp: cache_inv_def)

lemma wf_lruKeys: "wf_lru s as \<Longrightarrow> lruKeys s = nodeKeys s as"
  by (simp add: lruKeys_def wf_lruList)

lemma wf_node_of_key:
  assumes "wf_lru s as" "map_of (lruNodes s) k = Some a"
  shows "a \<in> set as" and "node_key (heap s a) = k"
proof -
  have "k \<in> set (map fst (lruNodes s))"
    using assms(2) map_of_eq_None_iff[of _ k] by (metis option.distinct(1) set_map)
  then obtain b where b: "b \<in> set as" "node_key (heap s b) = k"
    using wf_node_keys[OF assms(1)] by (auto simp: nodeKeys_def)
  then have "map_of (lruNodes s) k = Some b"
    using wf_node_registered[OF assms(1)] by blast
  then have "a = b" using assms(2) by simp
  then show "a \<in> set as" and "node_key (heap s a) = k" using b by simp_all
qed

lemma wf_cached_has_node:
  assumes "wf_lru s as" "map_of (cache s) k = Some e"
  shows "\<exists>a. a \<in> set as \<and> map_of (lruNodes s) k = Some a \<and> node_key (heap s a) = k"
proof -
  have "k \<in> set (map fst (cache s))"
    using assms(2) map_of_eq_None_iff[of _ k] by (metis option.distinct(1) set_map)
  then obtain b where b: "b \<in> set as" "node_key (heap s b) = k"
    using wf_cache_keys[OF assms(1)] by (auto simp: nodeKeys_def)
  then have "map_of (lruNodes s) k = Some b"
    using wf_node_registered[OF assms(1)] by blast
  then show ?thesis using b by blast
qed

lemma wf_uncached_no_node:
  assumes "wf_lru s as" "map_of (cache s) k = None"
  shows "k \<notin> set (nodeKeys s as)" and "map_of (lruNodes s) k = None"
proof -
  have "k \<notin> set (map fst (cache s))"
    using assms(2) by (simp add: map_of_eq_None_iff)
  then show "k \<notin> set (nodeKeys s as)" using wf_cache_keys[OF assms(1)] by simp
  then have "k \<notin> set (map fst (lruNodes s))" using wf_node_keys[OF assms(1)] by simp
  then show "map_of (lruNodes s) k = None" by (simp add: map_of_eq_None_iff)
qed

lemma wf_lruI:
  assumes "lru_linked s as"
    and "\<And>a. a \<in> set as \<Longrightarrow> a < nextAddr s"
    and "\<And>a. a \<in> set as \<Longrightarrow> map_of (lruNodes s) (node_key (heap s a)) = Some a"
    and "distinct (map fst (lruNodes s))"
    and "set (map fst (lruNodes s)) = set (nodeKeys s as)"
    and "distinct (map fst (cache s))"
    and "set (map fst (cache s)) = set (nodeKeys s as)"
    and "[] \<notin> set (map fst (cache s))"
  shows "wf_lru s as"
  unfolding wf_lru_def list_all_iff
  using assms by (intro conjI ballI)

lemma wf_reorder:
  assumes wf: "wf_lru s as"
    and linked: "lru_linked s' as'"
    and same: "set as' = set as"
    and keys: "\<And>b. node_key (heap s' b) = node_key (heap s b)"
    and nodes: "lruNodes s' = lruNodes s"
    and ckeys: "map fst (cache s') = map fst (cache s)"
    and nxt: "nextAddr s' = nextAddr s"
  shows "wf_lru s' as'"
proof (rule wf_lruI)
  have nk: "set (nodeKeys s' as') = set (nodeKeys s as)"
    by (simp add: nodeKeys_def keys same)
  show "lru_linked s' as'" by (rule linked)
  show "a < nextAddr s'" if "a \<in> set as'" for a
    using wf_below_next[OF wf, of a] that by (simp add: same nxt)
  show "map_of (lruNodes s') (node_key (heap s' a)) = Some a" if "a \<in> set as'" for a
    using wf_node_registered[OF wf, of a] that by (simp add: same nodes keys)
  show "distinct (map fst (lruNodes s'))"
    using wf_distinct_nodes[OF wf] by (simp add: nodes)
  show "set (map fst (lruNodes s')) = set (nodeKeys s' as')"
    unfolding nodes nk by (rule wf_node_keys[OF wf])
  show "distinct (map fst (cache s'))"
    using wf_distinct_cache[OF wf] unfolding ckeys .
  show "set (map fst (cache s')) = set (nodeKeys s' as')"
    unfolding ckeys nk by (rule wf_cache_keys[OF wf])
  show "[] \<notin> set (map fst (cache s'))"
    using wf_nonempty_keys[OF wf] unfolding ckeys .
qed

lemma wf_insert:
  assumes wf: "wf_lru s as"
    and linked: "lru_linked s' (n # as)"
    and n: "n = nextAddr s"
    and keys: "\<And>b. node_key (heap s' b) = (if b = n then k else node_key (heap s b))"
    and nodes: "lruNodes s' = AList.update k n (lruNodes s)"
    and cch: "cache s' = AList.update k e (cache s)"
    and nxt: "nextAddr s' = nextAddr s + 1"
    and fresh: "k \<notin> set (nodeKeys s as)"
    and nonempty: "k \<noteq> []"
  shows "wf_lru s' (n # as)"
proof (rule wf_lruI)
  have old: "node_key (heap s' a) = node_key (heap s a)" "node_key (heap s a) \<noteq> k"
    if "a \<in> set as" for a
  proof -
    have "a \<noteq> n" using wf_below_next[OF wf that] n by simp
    then show "node_key (heap s' a) = node_key (heap s a)" by (simp add: keys)
    show "node_key (heap s a) \<noteq> k" using fresh that by (auto simp: nodeKeys_def)
  qed
  have nk: "set (nodeKeys s' (n # as)) = insert k (set (nodeKeys s as))"
    using old(1) by (simp add: nodeKeys_def keys)
  show "lru_linked s' (n # as)" by (rule linked)
  show "a < nextAddr s'" if "a \<in> set (n # as)" for a
    using wf_below_next[OF wf, of a] that n by (auto simp: nxt)
  show "map_of (lruNodes s') (node_key (heap s' a)) = Some a" if "a \<in> set (n # as)" for a
  proof (cases "a = n")
    case True
    then show ?thesis by (simp add: keys nodes update_conv')
  next
    case False
    then have a: "a \<in> set as" using that by simp
    show ?thesis
      using wf_node_registered[OF wf a] old[OF a] by (simp add: nodes update_conv')
  qed
  show "distinct (map fst (lruNodes s'))"
    using wf_distinct_nodes[OF wf] by (simp add: nodes distinct_update)
  have upd: "set (map fst (AList.update k v al)) = insert k (set (map fst al))"
    for v :: 'b and al :: "(string \<times> 'b) list"
    using dom_update[of k v al] by simp
  show "set (map fst (lruNodes s')) = set (nodeKeys s' (n # as))"
    unfolding nodes upd nk wf_node_keys[OF wf] ..
  show "distinct (map fst (cache s'))"
    using wf_distinct_cache[OF wf] by (simp add: cch distinct_update)
  show "set (map fst (cache s')) = set (nodeKeys s' (n # as))"
    unfolding cch upd nk wf_cache_keys[OF wf] ..
  show "[] \<notin> set (map fst (cache s'))"
    unfolding cch upd using wf_nonempty_keys[OF wf] nonempty by simp
qed

lemma wf_remove:
  assumes wf: "wf_lru s as"
    and a: "a \<in> set as"
    and linked: "lru_linked s' (remove1 a as)"
    and keys: "\<And>b. node_key (heap s' b) = node_key (heap s b)"
    and nodes: "lruNodes s' = AList.delete (node_key (heap s a)) (lruNodes s)"
    and cch: "cache s' = AList.delete (node_key (heap s a)) (cache s)"
    and nxt: "nextAddr s' = nextAddr s"
  shows "wf_lru s' (remove1 a as)"
proof (rule wf_lruI)
  have dist: "distinct as" using wf_linked[OF wf] by (simp add: lru_linked_def)
  have s1: "set (remove1 a as) = set as - {a}" using dist by (rule set_remove1_eq)
  have inj: "inj_on (\<lambda>a. node_key (heap s a)) (set as)"
    by (rule inj_onI) (rule wf_key_inj[OF wf])
  have rest: "b \<in> set as" "node_key (heap s b) \<noteq> node_key (heap s a)"
    if "b \<in> set (remove1 a as)" for b
  proof -
    have b: "b \<in> set as" "b \<noteq> a" using that unfolding s1 by simp_all
    show "b \<in> set as" by (rule b(1))
    show "node_key (heap s b) \<noteq> node_key (heap s a)"
      using inj_onD[OF inj _ b(1) a] b(2) by blast
  qed
  have "(\<lambda>a. node_key (heap s a)) ` (set as - {a})
        = (\<lambda>a. node_key (heap s a)) ` set as - (\<lambda>a. node_key (heap s a)) ` {a}"
    by (rule inj_on_image_set_diff[OF inj]) (use a in simp_all)
  then have nk: "set (nodeKeys s' (remove1 a as)) = set (nodeKeys s as) - {node_key (heap s a)}"
    by (simp add: nodeKeys_def keys s1)
  show "lru_linked s' (remove1 a as)" by (rule linked)
  show "b < nextAddr s'" if "b \<in> set (remove1 a as)" for b
    using wf_below_next[OF wf rest(1)[OF that]] by (simp add: nxt)
  show "map_of (lruNodes s') (node_key (heap s' b)) = Some b" if "b \<in> set (remove1 a as)" for b
    using wf_node_registered[OF wf rest(1)[OF that]] rest(2)[OF that]
    by (simp add: nodes keys)
  show "distinct (map fst (lruNodes s'))"
    using wf_distinct_nodes[OF wf] by (simp add: nodes distinct_delete)
  have del: "set (map fst (AList.delete x al)) = set (map fst al) - {x}"
    for x :: string and al :: "(string \<times> 'b) list"
    by (simp add: delete_keys)
  show "set (map fst (lruNodes s')) = set (nodeKeys s' (remove1 a as))"
    unfolding nodes del nk wf_node_keys[OF wf] ..
  show "distinct (map fst (cache s'))"
    using wf_distinct_cache[OF wf] by (simp add: cch distinct_delete)
  show "set (map fst (cache s')) = set (nodeKeys s' (remove1 a as))"
    unfolding cch del nk wf_cache_keys[OF wf] ..
  show "[] \<notin> set (map fst (cache s'))"
    unfolding cch del using wf_nonempty_keys[OF wf] by simp
qed

lemma lru_linked_cong:
  "heap s' = heap s \<Longrightarrow> lruHead s' = lruHead s \<Longrightarrow> lruTail s' = lruTail s \<Longrightarrow>
   lru_linked s' as = lru_linked s as"
  by (simp add: lru_linked_def)

lemma remove1_split: "a \<notin> set xs \<Longrightarrow> remove1 a (xs @ a # ys) = xs @ ys"
  by (induction xs) auto

lemma wf_moveToFront:
  assumes wf: "wf_lru s as" and a: "a \<in> set as"
  shows "wf_lru (moveToFront a s) (a # remove1 a as)"
proof -
  obtain xs ys where split: "as = xs @ a # ys" "a \<notin> set xs"
    using split_list_first[OF a] by blast
  have r: "remove1 a as = xs @ ys" by (simp add: split remove1_split)
  have linked: "lru_linked (moveToFront a s) (a # remove1 a as)"
    unfolding r using moveToFront_linked[of s xs a ys] wf_linked[OF wf] by (simp add: split)
  show ?thesis
  proof (rule wf_reorder[OF wf linked])
    show "set (a # remove1 a as) = set as" unfolding r by (auto simp: split)
  qed simp_all
qed

lemma evictLRU_stop:
  "\<not> int (length (cache s)) > maxSize (cacheConfig s) \<Longrightarrow> evictLRU s = Some s"
  by (subst evictLRU.simps) simp

lemma evictLRU_step:
  "int (length (cache s)) > maxSize (cacheConfig s) \<Longrightarrow> truthy (fst (removeTail s)) \<Longrightarrow>
   evictLRU s =
     evictLRU ((snd (removeTail s))\<lparr>cache := AList.delete (the (fst (removeTail s)))
                                            (cache (snd (removeTail s))),
                                  isDirty := True\<rparr>)"
  by (subst evictLRU.simps) (simp add: Let_def)

lemma evictLRU_null:
  "int (length (cache s)) > maxSize (cacheConfig s) \<Longrightarrow> \<not> truthy (fst (removeTail s)) \<Longrightarrow>
   evictLRU s = Some (snd (removeTail s))"
  by (subst evictLRU.simps) (simp add: Let_def)

text \<open>One round of the loop on a well-formed state with a last node \<open>t\<close>.\<close>

lemma wf_evict_one:
  assumes wf: "wf_lru s (xs @ [t])"
  defines "s' \<equiv> (snd (removeTail s))\<lparr>cache := AList.delete (node_key (heap s t))
                                            (cache (snd (removeTail s))),
                                  isDirty := True\<rparr>"
  shows "wf_lru s' xs" and "truthy (fst (removeTail s))"
    and "the (fst (removeTail s)) = node_key (heap s t)"
proof -
  have linked: "lru_linked s (xs @ [t])" by (rule wf_linked[OF wf])
  have dist: "distinct (xs @ [t])" using linked by (simp add: lru_linked_def)
  have r: "remove1 t (xs @ [t]) = xs" using dist by (simp add: remove1_append)
  have "node_key (heap s t) \<in> set (nodeKeys s (xs @ [t]))" by (simp add: nodeKeys_def)
  then have "node_key (heap s t) \<in> set (map fst (cache s))"
    using wf_cache_keys[OF wf] by simp
  then have ne: "node_key (heap s t) \<noteq> []" using wf_nonempty_keys[OF wf] by metis
  show "truthy (fst (removeTail s))"
    using removeTail_linked(1)[OF linked] ne by (simp add: truthy_def)
  show "the (fst (removeTail s)) = node_key (heap s t)"
    using removeTail_linked(1)[OF linked] by simp
  have l': "lru_linked s' (remove1 t (xs @ [t]))"
    unfolding r using removeTail_linked(2)[OF linked]
    by (simp add: s'_def lru_linked_def)
  have "wf_lru s' (remove1 t (xs @ [t]))"
    by (rule wf_remove[OF wf _ l'])
       (simp_all add: s'_def removeTail_linked(3)[OF linked])
  then show "wf_lru s' xs" by (simp only: r)
qed

lemma wf_cache_lookup_outside:
  assumes "wf_lru s as" and "k \<notin> set (nodeKeys s as)"
  shows "map_of (cache s) k = None"
proof -
  have "k \<notin> set (map fst (cache s))" using assms wf_cache_keys by blast
  then show ?thesis by (simp add: map_of_eq_None_iff)
qed

lemma evictLRU_wf:
  assumes "wf_lru s as"
  shows "\<exists>s'. evictLRU s = Some s'
           \<and> wf_lru s' (take (nat (maxSize (cacheConfig s))) as)
           \<and> cacheConfig s' = cacheConfig s
           \<and> (\<forall>b. node_key (heap s' b) = node_key (heap s b))
           \<and> (\<forall>k. map_of (cache s') k =
                  (if k \<in> set (nodeKeys s (take (nat (maxSize (cacheConfig s))) as))
                   then map_of (cache s) k else None))"
  using assms
proof (induction as arbitrary: s rule: rev_induct)
  case Nil
  have len: "length (cache s) = 0" using wf_lengths(2)[OF Nil] by simp
  have "removeTail s = (None, s)"
    using removeTail_empty[OF wf_linked[OF Nil]] .
  then have "evictLRU s = Some s"
    using evictLRU_stop[of s] evictLRU_null[of s] by (cases "0 > maxSize (cacheConfig s)")
      (simp_all add: len truthy_def)
  then show ?case using Nil len by (simp add: nodeKeys_def)
next
  case (snoc t xs)
  let ?m = "maxSize (cacheConfig s)"
  have len: "length (cache s) = Suc (length xs)" using wf_lengths(2)[OF snoc.prems] by simp
  show ?case
  proof (cases "int (length (cache s)) > ?m")
    case False
    then have ev: "evictLRU s = Some s" by (rule evictLRU_stop)
    have tk: "take (nat ?m) (xs @ [t]) = xs @ [t]" using False len by simp
    show ?thesis
      unfolding tk using ev snoc.prems wf_cache_lookup_outside[OF snoc.prems] by simp
  next
    case True
    define s2 where "s2 = (snd (removeTail s))\<lparr>cache := AList.delete (node_key (heap s t))
                                            (cache (snd (removeTail s))),
                                  isDirty := True\<rparr>"
    have wf2: "wf_lru s2 xs" and tr: "truthy (fst (removeTail s))"
      and key: "the (fst (removeTail s)) = node_key (heap s t)"
      using wf_evict_one[OF snoc.prems] by (simp_all add: s2_def)
    have ev: "evictLRU s = evictLRU s2"
      using evictLRU_step[OF True tr] by (simp add: key s2_def)
    have cfg2: "cacheConfig s2 = cacheConfig s" by (simp add: s2_def)
    have keys2: "node_key (heap s2 b) = node_key (heap s b)" for b by (simp add: s2_def)
    have cache2: "cache s2 = AList.delete (node_key (heap s t)) (cache s)" by (simp add: s2_def)
    have tk: "take (nat ?m) (xs @ [t]) = take (nat ?m) xs" using True len by simp
    obtain s' where s': "evictLRU s2 = Some s'"
      "wf_lru s' (take (nat ?m) xs)" "cacheConfig s' = cacheConfig s"
      "\<And>b. node_key (heap s' b) = node_key (heap s b)"
      "\<And>k. map_of (cache s') k =
                  (if k \<in> set (nodeKeys s2 (take (nat ?m) xs))
                   then map_of (cache s2) k else None)"
      using snoc.IH[OF wf2] unfolding cfg2 keys2 by blast
    have nk: "nodeKeys s2 ys = nodeKeys s ys" for ys by (simp add: nodeKeys_def keys2)
    have "map_of (cache s2) k = map_of (cache s) k" if kin: "k \<in> set (nodeKeys s (take (nat ?m) xs))" for k
    proof -
      obtain b where b: "b \<in> set xs" "k = node_key (heap s b)"
        using kin in_set_takeD[of _ "nat ?m" xs] by (auto simp: nodeKeys_def)
      have "distinct (xs @ [t])" using wf_linked[OF snoc.prems] by (simp add: lru_linked_def)
      then have "b \<noteq> t" using b(1) by auto
      then have "k \<noteq> node_key (heap s t)"
        using wf_key_inj[OF snoc.prems, of b t] b by auto
      then show ?thesis by (simp add: cache2)
    qed
    then have look: "map_of (cache s') k =
                  (if k \<in> set (nodeKeys s (take (nat ?m) xs))
                   then map_of (cache s) k else None)" for k
      using s'(5)[of k] by (simp add: nk)
    show ?thesis
      unfolding tk ev using s'(1-4) look by blast
  qed
qed

lemma map_remove1_inj:
  "inj_on f (set xs) \<Longrightarrow> a \<in> set xs \<Longrightarrow> map f (remove1 a xs) = remove1 (f a) (map f xs)"
proof (induction xs)
  case Nil
  then show ?case by simp
next
  case (Cons x xs)
  show ?case
  proof (cases "x = a")
    case True
    then show ?thesis by simp
  next
    case False
    then have "f x \<noteq> f a" using Cons.prems by (auto simp: inj_on_def)
    moreover have "map f (remove1 a xs) = remove1 (f a) (map f xs)"
      using Cons False by (auto simp: inj_on_def)
    ultimately show ?thesis using False by simp
  qed
qed

lemma wf_nodeKeys_remove1:
  assumes "wf_lru s as" and "a \<in> set as"
  shows "nodeKeys s (remove1 a as) = remove1 (node_key (heap s a)) (nodeKeys s as)"
  unfolding nodeKeys_def
  by (rule map_remove1_inj[OF _ assms(2)], rule inj_onI, rule wf_key_inj[OF assms(1)])

lemma update_keys_present:
  "map_of al k = Some v \<Longrightarrow> map fst (AList.update k v' al) = map fst al"
  by (induction al) (auto split: if_splits)

text \<open>A hit: the entry is refreshed in place and its node moves to the front.\<close>

lemma wf_get_hit:
  assumes wf: "wf_lru s as" and en: "enabled (cacheConfig s)"
    and e: "map_of (cache s) k = Some e"
    and fresh: "\<not> now - createdAt e > ttlSeconds (cacheConfig s) * 1000"
  shows "\<exists>a. a \<in> set as \<and> node_key (heap s a) = k
           \<and> fst (getCachedResponse k now s) = Some (e\<lparr>lastAccessed := now, hits := hits e + 1\<rparr>)
           \<and> wf_lru (snd (getCachedResponse k now s)) (a # remove1 a as)
           \<and> nodeKeys (snd (getCachedResponse k now s)) (a # remove1 a as)
               = k # remove1 k (nodeKeys s as)
           \<and> cacheConfig (snd (getCachedResponse k now s)) = cacheConfig s
           \<and> cache (snd (getCachedResponse k now s))
               = AList.update k (e\<lparr>lastAccessed := now, hits := hits e + 1\<rparr>) (cache s)"
proof -
  obtain a where a: "a \<in> set as" "map_of (lruNodes s) k = Some a" "node_key (heap s a) = k"
    using wf_cached_has_node[OF wf e] by blast
  define e1 where "e1 = e\<lparr>lastAccessed := now, hits := hits e + 1\<rparr>"
  define s1 where "s1 = s\<lparr>cache := AList.update k e1 (cache s),
                            stats_hits := stats_hits s + 1,
                            savedTokens := savedTokens s + (inputTokens e + outputTokens e),
                            isDirty := True\<rparr>"
  have res: "getCachedResponse k now s = (Some e1, moveToFront a s1)"
    using en e fresh a(2) by (simp add: getCachedResponse_def Let_def e1_def s1_def)
  have wf1: "wf_lru s1 as"
  proof (rule wf_reorder[OF wf])
    show "lru_linked s1 as"
      using wf_linked[OF wf] by (simp add: s1_def lru_linked_def)
    show "map fst (cache s1) = map fst (cache s)"
      using update_keys_present[OF e] by (simp add: s1_def)
  qed (simp_all add: s1_def)
  have wf2: "wf_lru (moveToFront a s1) (a # remove1 a as)"
    by (rule wf_moveToFront[OF wf1 a(1)])
  have nk: "nodeKeys (moveToFront a s1) ys = nodeKeys s ys" for ys
    by (simp add: nodeKeys_def s1_def)
  have "nodeKeys (moveToFront a s1) (a # remove1 a as) = k # remove1 k (nodeKeys s as)"
    unfolding nk using wf_nodeKeys_remove1[OF wf a(1)] a(3) by (simp add: nodeKeys_def)
  moreover have "cache (moveToFront a s1) = AList.update k e1 (cache s)"
    by (simp add: s1_def)
  ultimately show ?thesis
    using a wf2 by (auto simp: res e1_def s1_def)
qed

text \<open>An expired entry: the entry and its node are removed.\<close>

lemma wf_get_expired:
  assumes wf: "wf_lru s as" and en: "enabled (cacheConfig s)"
    and e: "map_of (cache s) k = Some e"
    and old: "now - createdAt e > ttlSeconds (cacheConfig s) * 1000"
  shows "\<exists>a. a \<in> set as \<and> node_key (heap s a) = k
           \<and> fst (getCachedResponse k now s) = None
           \<and> wf_lru (snd (getCachedResponse k now s)) (remove1 a as)"
proof -
  obtain a where a: "a \<in> set as" "map_of (lruNodes s) k = Some a" "node_key (heap s a) = k"
    using wf_cached_has_node[OF wf e] by blast
  define s1 where "s1 = s\<lparr>cache := AList.delete k (cache s)\<rparr>"
  define s2 where "s2 = removeNode k s1"
  define s3 where "s3 = s2\<lparr>stats_misses := stats_misses s2 + 1, isDirty := True\<rparr>"
  have res: "getCachedResponse k now s = (None, s3)"
    using en e old by (simp add: getCachedResponse_def Let_def s1_def s2_def s3_def)
  obtain xs ys where split: "as = xs @ a # ys" "a \<notin> set xs"
    using split_list_first[OF a(1)] by blast
  have r: "remove1 a as = xs @ ys" by (simp add: split remove1_split)
  have "lru_linked s1 (xs @ a # ys)"
    using wf_linked[OF wf] by (simp add: s1_def lru_linked_def split)
  then have "lru_linked s2 (xs @ ys)"
    unfolding s2_def by (rule removeNode_linked) (simp add: s1_def a(2))
  then have linked: "lru_linked s3 (remove1 a as)"
    by (simp add: r s3_def lru_linked_def)
  have "wf_lru s3 (remove1 a as)"
    by (rule wf_remove[OF wf a(1) linked]) (simp_all add: s3_def s2_def s1_def a(3))
  then show ?thesis using a by (auto simp: res)
qed

lemma wf_get_miss:
  assumes wf: "wf_lru s as" and e: "map_of (cache s) k = None"
  shows "fst (getCachedResponse k now s) = None"
    and "wf_lru (snd (getCachedResponse k now s)) as"
proof -
  show "fst (getCachedResponse k now s) = None"
    using e by (simp add: getCachedResponse_def)
  have "wf_lru (s\<lparr>stats_misses := stats_misses s + 1\<rparr>) as"
    by (rule wf_reorder[OF wf]) (use wf_linked[OF wf] in \<open>simp_all add: lru_linked_def\<close>)
  then show "wf_lru (snd (getCachedResponse k now s)) as"
    using e wf by (simp add: getCachedResponse_def)
qed

lemma getCachedResponse_inv: "cache_inv s \<Longrightarrow> cache_inv (snd (getCachedResponse k now s))"
proof -
  assume "cache_inv s"
  then obtain as where wf: "wf_lru s as" by (auto simp: cache_inv_iff)
  show ?thesis
  proof (cases "enabled (cacheConfig s)")
    case False
    then show ?thesis using \<open>cache_inv s\<close> by (simp add: getCachedResponse_def)
  next
    case True
    show ?thesis
    proof (cases "map_of (cache s) k")
      case None
      then show ?thesis using wf_get_miss(2)[OF wf None] cache_inv_iff by blast
    next
      case (Some e)
      show ?thesis
      proof (cases "now - createdAt e > ttlSeconds (cacheConfig s) * 1000")
        case True
        then show ?thesis
          using wf_get_expired[OF wf \<open>enabled (cacheConfig s)\<close> Some True] cache_inv_iff by blast
      next
        case False
        then show ?thesis
          using wf_get_hit[OF wf \<open>enabled (cacheConfig s)\<close> Some False] cache_inv_iff by blast
      qed
    qed
  qed
qed

text \<open>The state of \<open>setCachedResponse\<close> just before \<open>evictLRU\<close> runs.\<close>

lemma wf_set_before_evict:
  fixes s :: "'v CacheState" and e :: "'v CacheEntry"
  assumes wf: "wf_lru s as" and ne: "k \<noteq> []"
  defines "s1 \<equiv> (if map_of (cache s) k \<noteq> None
                  then (case map_of (lruNodes s) k of
                          Some node \<Rightarrow> moveToFront node s | None \<Rightarrow> s)
                  else addToFront k s)"
  defines "s2 \<equiv> s1\<lparr>cache := AList.update k e (cache s1), isDirty := True\<rparr>"
  shows "\<exists>L. wf_lru s2 L \<and> nodeKeys s2 L = k # remove1 k (nodeKeys s as)
              \<and> cacheConfig s2 = cacheConfig s
              \<and> map_of (cache s2) = (map_of (cache s))(k \<mapsto> e)"
proof (cases "map_of (cache s) k")
  case None
  define n where "n = nextAddr s"
  have s1: "s1 = addToFront k s" using None by (simp add: s1_def)
  have fresh: "k \<notin> set (nodeKeys s as)" by (rule wf_uncached_no_node(1)[OF wf None])
  have "n \<notin> set as" using wf_below_next[OF wf, of n] by (auto simp: n_def)
  then have "lru_linked (addToFront k s) (n # as)"
    unfolding n_def by (rule addToFront_linked[OF wf_linked[OF wf]])
  then have linked: "lru_linked s2 (n # as)"
    by (simp add: s2_def s1 lru_linked_def)
  have wf2: "wf_lru s2 (n # as)"
    by (rule wf_insert[OF wf linked n_def _ _ _ _ fresh ne, of e])
       (simp_all add: s2_def s1 n_def)
  have "nodeKeys s2 (n # as) = k # nodeKeys s as"
    using wf_below_next[OF wf] by (auto simp: nodeKeys_def s2_def s1 n_def)
  then have "nodeKeys s2 (n # as) = k # remove1 k (nodeKeys s as)"
    using fresh by (simp add: remove1_idem)
  moreover have "map_of (cache s2) = (map_of (cache s))(k \<mapsto> e)"
    by (simp add: s2_def s1 update_conv')
  moreover have "cacheConfig s2 = cacheConfig s" by (simp add: s2_def s1)
  ultimately show ?thesis using wf2 by blast
next
  case (Some e0)
  obtain a where a: "a \<in> set as" "map_of (lruNodes s) k = Some a" "node_key (heap s a) = k"
    using wf_cached_has_node[OF wf Some] by blast
  have s1: "s1 = moveToFront a s" using Some a(2) by (simp add: s1_def)
  have wf1: "wf_lru s1 (a # remove1 a as)"
    unfolding s1 by (rule wf_moveToFront[OF wf a(1)])
  have wf2: "wf_lru s2 (a # remove1 a as)"
  proof (rule wf_reorder[OF wf1])
    show "lru_linked s2 (a # remove1 a as)"
      using wf_linked[OF wf1] by (simp add: s2_def lru_linked_def)
    show "map fst (cache s2) = map fst (cache s1)"
      using update_keys_present[OF Some] by (simp add: s2_def s1)
  qed (simp_all add: s2_def)
  have "nodeKeys s2 (a # remove1 a as) = k # remove1 k (nodeKeys s as)"
    using wf_nodeKeys_remove1[OF wf a(1)] a(3) by (simp add: nodeKeys_def s2_def s1)
  moreover have "map_of (cache s2) = (map_of (cache s))(k \<mapsto> e)"
    by (simp add: s2_def s1 update_conv')
  moreover have "cacheConfig s2 = cacheConfig s" by (simp add: s2_def s1)
  ultimately show ?thesis using wf2 by blast
qed

lemma wf_set:
  assumes wf: "wf_lru s as" and en: "enabled (cacheConfig s)" and ne: "k \<noteq> []"
  shows "\<exists>s' as'. setCachedResponse k r m i out now s = Some s' \<and> wf_lru s' as'
           \<and> nodeKeys s' as' = take (nat (maxSize (cacheConfig s))) (k # remove1 k (nodeKeys s as))
           \<and> cacheConfig s' = cacheConfig s
           \<and> (\<forall>k'. map_of (cache s') k' =
                 (if k' \<in> set (nodeKeys s' as')
                  then (if k' = k then Some (newEntry k r m i out now) else map_of (cache s) k')
                  else None))"
proof -
  define e where "e = newEntry k r m i out now"
  define s1 where "s1 = (if map_of (cache s) k \<noteq> None
                  then (case map_of (lruNodes s) k of
                          Some node \<Rightarrow> moveToFront node s | None \<Rightarrow> s)
                  else addToFront k s)"
  define s2 where "s2 = s1\<lparr>cache := AList.update k e (cache s1), isDirty := True\<rparr>"
  have res: "setCachedResponse k r m i out now s = evictLRU s2"
    using en by (simp add: setCachedResponse_def Let_def s2_def s1_def e_def)
  obtain L where L: "wf_lru s2 L" "nodeKeys s2 L = k # remove1 k (nodeKeys s as)"
    "cacheConfig s2 = cacheConfig s" "map_of (cache s2) = (map_of (cache s))(k \<mapsto> e)"
    using wf_set_before_evict[OF wf ne, of e] unfolding s1_def s2_def by blast
  let ?n = "nat (maxSize (cacheConfig s))"
  obtain s' where s': "evictLRU s2 = Some s'" "wf_lru s' (take ?n L)"
    "cacheConfig s' = cacheConfig s"
    "\<And>b. node_key (heap s' b) = node_key (heap s2 b)"
    "\<And>k'. map_of (cache s') k' =
        (if k' \<in> set (nodeKeys s2 (take ?n L)) then map_of (cache s2) k' else None)"
    using evictLRU_wf[OF L(1)] unfolding L(3) by blast
  have nk: "nodeKeys s' ys = nodeKeys s2 ys" for ys by (simp add: nodeKeys_def s'(4))
  have "nodeKeys s2 (take ?n L) = take ?n (nodeKeys s2 L)"
    by (simp add: nodeKeys_def take_map)
  then have keys: "nodeKeys s' (take ?n L) = take ?n (k # remove1 k (nodeKeys s as))"
    unfolding nk L(2) .
  have look: "map_of (cache s') k' =
                 (if k' \<in> set (nodeKeys s' (take ?n L))
                  then (if k' = k then Some e else map_of (cache s) k')
                  else None)" for k'
    using s'(5)[of k'] by (simp add: nk L(4))
  show ?thesis
    unfolding res using s'(1,2,3) keys look unfolding e_def by blast
qed

lemma setCachedResponse_inv:
  assumes "cache_inv s" and "k \<noteq> []"
  shows "\<exists>s'. setCachedResponse k r m i out now s = Some s' \<and> cache_inv s'"
proof (cases "enabled (cacheConfig s)")
  case True
  obtain as where wf: "wf_lru s as" using assms(1) by (auto simp: cache_inv_iff)
  show ?thesis using wf_set[OF wf True assms(2), of r m i out now] cache_inv_iff by blast
next
  case False
  then show ?thesis using assms(1) by (simp add: setCachedResponse_def)
qed

text \<open>The well-formedness invariant holds initially and is kept by the other mutators.\<close>

lemma cache_inv_initial: "cache_inv initialCacheState"
  by (simp add: cache_inv_def wf_lru_def lru_linked_def lruList_def initialCacheState_def
      nodeKeys_def)

lemma clearCache_inv: "cache_inv (clearCache s)"
proof -
  have "wf_lru (clearCache s) []"
    by (simp add: wf_lru_def lru_linked_def clearCache_def resetLRU_def nodeKeys_def)
  then show ?thesis using cache_inv_iff by blast
qed

lemma deleteCacheEntry_inv:
  assumes "cache_inv s"
  shows "cache_inv (snd (deleteCacheEntry k s))"
proof (cases "map_of (cache s) k")
  case None
  then show ?thesis using assms by (simp add: deleteCacheEntry_def)
next
  case (Some e)
  obtain as where wf: "wf_lru s as" using assms by (auto simp: cache_inv_iff)
  obtain a where a: "a \<in> set as" "map_of (lruNodes s) k = Some a" "node_key (heap s a) = k"
    using wf_cached_has_node[OF wf Some] by blast
  define s1 where "s1 = s\<lparr>cache := AList.delete k (cache s)\<rparr>"
  define s3 where "s3 = (removeNode k s1)\<lparr>isDirty := True\<rparr>"
  have res: "deleteCacheEntry k s = (True, s3)"
    using Some by (simp add: deleteCacheEntry_def s1_def s3_def)
  obtain xs ys where split: "as = xs @ a # ys" "a \<notin> set xs"
    using split_list_first[OF a(1)] by blast
  have r: "remove1 a as = xs @ ys" by (simp add: split remove1_split)
  have "lru_linked s1 (xs @ a # ys)"
    using wf_linked[OF wf] by (simp add: s1_def lru_linked_def split)
  then have "lru_linked (removeNode k s1) (xs @ ys)"
    by (rule removeNode_linked) (simp add: s1_def a(2))
  then have linked: "lru_linked s3 (remove1 a as)"
    by (simp add: r s3_def lru_linked_def)
  have "wf_lru s3 (remove1 a as)"
    by (rule wf_remove[OF wf a(1) linked]) (simp_all add: s3_def s1_def a(3))
  then show ?thesis using cache_inv_iff by (auto simp: res)
qed

lemma generateCacheKey_nonempty: "generateCacheKey h mdl p \<noteq> []"
  by (simp add: generateCacheKey_def)

lemma getCachedResponse_lookup:
  assumes "enabled (cacheConfig s)" and "map_of (cache s) k = Some e"
  shows "t - createdAt e \<le> ttlSeconds (cacheConfig s) * 1000 \<Longrightarrow>
           fst (getCachedResponse k t s) = Some (e\<lparr>lastAccessed := t, hits := hits e + 1\<rparr>)"
    and "t - createdAt e > ttlSeconds (cacheConfig s) * 1000 \<Longrightarrow>
           fst (getCachedResponse k t s) = None
           \<and> map_of (cache (snd (getCachedResponse k t s))) k = None
           \<and> map_of (lruNodes (snd (getCachedResponse k t s))) k = None"
  using assms
  by (simp_all add: getCachedResponse_def Let_def delete_conv')

text \<open>
  C1. On a well-formed, enabled cache of capacity at least 1, storing the response \<open>r\<close>
  at time \<open>t0\<close> under the key of a request returns, and in the state \<open>s1\<close> it leaves the
  key maps to the new entry: response \<open>r\<close>, creation time \<open>t0\<close>, no hits (the entry is
  at the head of the recency list, so the store does not evict it). A lookup of the key
  in \<open>s1\<close> at time \<open>t1\<close> is decided by the time since the store: when \<open>t1 - t0\<close> is at
  most the TTL it is a hit that returns the stored entry, with the access time set to
  \<open>t1\<close> and one hit counted; when \<open>t1 - t0\<close> exceeds the TTL it is a miss that removes
  the key from the entry map and from the node map. The same holds of a lookup in any
  later state \<open>s2\<close> of the enabled cache in which the key still maps to an entry with the
  stored response and creation time (the entry has not been evicted or replaced).
\<close>

theorem cached_response_roundtrip:
  assumes "cache_inv s" and "enabled (cacheConfig s)" and "1 \<le> maxSize (cacheConfig s)"
  shows "\<exists>s1. setCachedResponse (generateCacheKey h mdl p) r m i out t0 s = Some s1
            \<and> cache_inv s1 \<and> cacheConfig s1 = cacheConfig s
            \<and> map_of (cache s1) (generateCacheKey h mdl p)
                = Some \<lparr>key = generateCacheKey h mdl p, response = r, model = m,
                        inputTokens = i, outputTokens = out,
                        createdAt = t0, lastAccessed = t0, hits = 0\<rparr>
            \<and> (t1 - t0 \<le> ttlSeconds (cacheConfig s) * 1000 \<longrightarrow>
                  fst (getCachedResponse (generateCacheKey h mdl p) t1 s1)
                    = Some \<lparr>key = generateCacheKey h mdl p, response = r, model = m,
                            inputTokens = i, outputTokens = out,
                            createdAt = t0, lastAccessed = t1, hits = 1\<rparr>)
            \<and> (t1 - t0 > ttlSeconds (cacheConfig s) * 1000 \<longrightarrow>
                  fst (getCachedResponse (generateCacheKey h mdl p) t1 s1) = None
                  \<and> map_of (cache (snd (getCachedResponse (generateCacheKey h mdl p) t1 s1)))
                       (generateCacheKey h mdl p) = None
                  \<and> map_of (lruNodes (snd (getCachedResponse (generateCacheKey h mdl p) t1 s1)))
                       (generateCacheKey h mdl p) = None)
            \<and> (enabled (cacheConfig s2)
                \<and> map_of (cache s2) (generateCacheKey h mdl p) = Some e
                \<and> response e = r \<and> createdAt e = t0 \<longrightarrow>
                  (t1 - t0 \<le> ttlSeconds (cacheConfig s2) * 1000 \<longrightarrow>
                     fst (getCachedResponse (generateCacheKey h mdl p) t1 s2)
                       = Some (e\<lparr>lastAccessed := t1, hits := hits e + 1\<rparr>)
                     \<and> response (e\<lparr>lastAccessed := t1, hits := hits e + 1\<rparr>) = r)
                \<and> (t1 - t0 > ttlSeconds (cacheConfig s2) * 1000 \<longrightarrow>
                     fst (getCachedResponse (generateCacheKey h mdl p) t1 s2) = None
                     \<and> map_of (cache (snd (getCachedResponse (generateCacheKey h mdl p) t1 s2)))
                          (generateCacheKey h mdl p) = None
                     \<and> map_of (lruNodes (snd (getCachedResponse (generateCacheKey h mdl p) t1 s2)))
                          (generateCacheKey h mdl p) = None))"
proof -
  let ?k = "generateCacheKey h mdl p"
  let ?e = "\<lparr>key = ?k, response = r, model = m, inputTokens = i, outputTokens = out,
             createdAt = t0, lastAccessed = t0, hits = 0\<rparr>"
  have e: "newEntry ?k r m i out t0 = ?e" by (simp add: newEntry_def)
  obtain as where wf: "wf_lru s as" using assms(1) by (auto simp: cache_inv_iff)
  obtain s1 as1 where s1: "setCachedResponse ?k r m i out t0 s = Some s1" "wf_lru s1 as1"
    "nodeKeys s1 as1 = take (nat (maxSize (cacheConfig s))) (?k # remove1 ?k (nodeKeys s as))"
    "cacheConfig s1 = cacheConfig s"
    "\<And>k'. map_of (cache s1) k' =
                 (if k' \<in> set (nodeKeys s1 as1)
                  then (if k' = ?k then Some (newEntry ?k r m i out t0) else map_of (cache s) k')
                  else None)"
    using wf_set[OF wf assms(2) generateCacheKey_nonempty, of h mdl p r m i out t0] by blast
  have inv1: "cache_inv s1" using s1(2) cache_inv_iff by blast
  obtain n where n: "nat (maxSize (cacheConfig s)) = Suc n"
    using assms(3) by (cases "nat (maxSize (cacheConfig s))") auto
  have "?k \<in> set (nodeKeys s1 as1)" unfolding s1(3) n by simp
  then have stored: "map_of (cache s1) ?k = Some ?e" using s1(5)[of ?k] e by simp
  have en1: "enabled (cacheConfig s1)" using assms(2) s1(4) by simp
  have hit: "fst (getCachedResponse ?k t1 s1)
               = Some \<lparr>key = ?k, response = r, model = m, inputTokens = i, outputTokens = out,
                       createdAt = t0, lastAccessed = t1, hits = 1\<rparr>"
    if "t1 - t0 \<le> ttlSeconds (cacheConfig s) * 1000"
    using getCachedResponse_lookup(1)[OF en1 stored, of t1] that by (simp add: s1(4))
  have miss: "fst (getCachedResponse ?k t1 s1) = None
              \<and> map_of (cache (snd (getCachedResponse ?k t1 s1))) ?k = None
              \<and> map_of (lruNodes (snd (getCachedResponse ?k t1 s1))) ?k = None"
    if "t1 - t0 > ttlSeconds (cacheConfig s) * 1000"
    using getCachedResponse_lookup(2)[OF en1 stored, of t1] that by (simp add: s1(4))
  have later: "enabled (cacheConfig s2) \<and> map_of (cache s2) ?k = Some e
            \<and> response e = r \<and> createdAt e = t0 \<longrightarrow>
            (t1 - t0 \<le> ttlSeconds (cacheConfig s2) * 1000 \<longrightarrow>
               fst (getCachedResponse ?k t1 s2)
                 = Some (e\<lparr>lastAccessed := t1, hits := hits e + 1\<rparr>)
               \<and> response (e\<lparr>lastAccessed := t1, hits := hits e + 1\<rparr>) = r)
          \<and> (t1 - t0 > ttlSeconds (cacheConfig s2) * 1000 \<longrightarrow>
               fst (getCachedResponse ?k t1 s2) = None
               \<and> map_of (cache (snd (getCachedResponse ?k t1 s2))) ?k = None
               \<and> map_of (lruNodes (snd (getCachedResponse ?k t1 s2))) ?k = None)"
    using getCachedResponse_lookup[of s2 ?k e t1] by auto
  show ?thesis
    using s1(1,4) inv1 stored hit miss later by blast
qed

theorem cached_response_roundtrip_witness:
  "cache_inv (exampleState 2) \<and> enabled (cacheConfig (exampleState 2))
   \<and> 1 \<le> maxSize (cacheConfig (exampleState 2))
   \<and> (\<exists>s1. setCachedResponse exampleKey 7 ''gpt-4'' 10 20 1700000000000 (exampleState 2) = Some s1
         \<and> map_of (cache s1) exampleKey
             = Some \<lparr>key = exampleKey, response = 7, model = ''gpt-4'',
                     inputTokens = 10, outputTokens = 20,
                     createdAt = 1700000000000, lastAccessed = 1700000000000, hits = 0\<rparr>
         \<and> fst (getCachedResponse exampleKey 1700000005000 s1)
             = Some \<lparr>key = exampleKey, response = 7, model = ''gpt-4'',
                     inputTokens = 10, outputTokens = 20,
                     createdAt = 1700000000000, lastAccessed = 1700000005000, hits = 1\<rparr>
         \<and> fst (getCachedResponse exampleKey 1700000020000 s1) = None
         \<and> map_of (cache (snd (getCachedResponse exampleKey 1700000020000 s1))) exampleKey = None)"
proof -
  let ?h = "\<lambda>p::nat. ''0123456789abcdef0123456789abcdef''"
  have inv: "cache_inv (exampleState 2)" by code_simp
  have en: "enabled (cacheConfig (exampleState 2))"
    by (simp add: exampleState_def)
  have cfg: "maxSize (cacheConfig (exampleState 2)) = 2"
    "ttlSeconds (cacheConfig (exampleState 2)) = 10"
    by (simp_all add: exampleState_def)
  have cap: "1 \<le> maxSize (cacheConfig (exampleState 2))" by (simp add: cfg)
  note rt = cached_response_roundtrip[OF inv en cap, where h = ?h and mdl = "''gpt-4''"
      and p = 0 and r = 7 and m = "''gpt-4''" and i = 10 and out = 20
      and ?t0.0 = 1700000000000, unfolded exampleKey_def[symmetric] cfg]
  obtain s1 where s1: "setCachedResponse exampleKey 7 ''gpt-4'' 10 20 1700000000000 (exampleState 2)
        = Some s1"
    and stored: "map_of (cache s1) exampleKey
             = Some \<lparr>key = exampleKey, response = 7, model = ''gpt-4'',
                     inputTokens = 10, outputTokens = 20,
                     createdAt = 1700000000000, lastAccessed = 1700000000000, hits = 0\<rparr>"
    and hit: "fst (getCachedResponse exampleKey 1700000005000 s1)
             = Some \<lparr>key = exampleKey, response = 7, model = ''gpt-4'',
                     inputTokens = 10, outputTokens = 20,
                     createdAt = 1700000000000, lastAccessed = 1700000005000, hits = 1\<rparr>"
    using rt[where ?t1.0 = 1700000005000] by auto
  have expired: "fst (getCachedResponse exampleKey 1700000020000 s1) = None
         \<and> map_of (cache (snd (getCachedResponse exampleKey 1700000020000 s1))) exampleKey = None"
    using rt[where ?t1.0 = 1700000020000] s1 by auto
  show ?thesis using inv en cap s1 stored hit expired by blast
qed

text \<open>
  C10. With the cache disabled, \<open>getCachedResponse\<close> is a miss that leaves the whole module
  state (counters, entry map, recency list, dirty flag) as it was, and
  \<open>setCachedResponse\<close> returns the state unchanged.
\<close>

theorem disabled_cache_is_inert:
  assumes "\<not> enabled (cacheConfig s)"
  shows "getCachedResponse k now s = (None, s)
         \<and> setCachedResponse k2 r m i out now2 s = Some s"
  using assms by (simp add: getCachedResponse_def setCachedResponse_def)

theorem disabled_cache_is_inert_witness:
  "\<not> enabled (cacheConfig disabledTwoEntries)
   \<and> getCachedResponse ''a'' 1500 disabledTwoEntries = (None, disabledTwoEntries)
   \<and> setCachedResponse ''c'' 3 ''gpt-4'' 1 1 3000 disabledTwoEntries = Some disabledTwoEntries"
proof -
  have off: "\<not> enabled (cacheConfig disabledTwoEntries)"
    by (simp add: disabledTwoEntries_def)
  show ?thesis
    using off disabled_cache_is_inert[OF off, of "''a''" 1500 "''c''" 3 "''gpt-4''" 1 1 3000]
    by blast
qed

lemma set_butlast_distinct:
  assumes "distinct xs" and "xs \<noteq> []"
  shows "set (butlast xs) = set xs - {last xs}"
proof (cases xs rule: rev_cases)
  case Nil
  then show ?thesis using assms(2) by simp
next
  case (snoc ys y)
  then show ?thesis using assms(1) by auto
qed

text \<open>
  C2 (as amended). On a well-formed, enabled cache and for a fresh, non-empty key \<open>k\<close>:
  when the cache holds exactly \<open>maxSize\<close> entries, inserting \<open>k\<close> returns, puts \<open>k\<close> at
  the front of the recency order and drops exactly the last key of the order (the least
  recently used one), so the size stays the same. A hit on \<open>k'\<close> moves \<open>k'\<close> to the front
  of the recency order; and when the capacity is at least 2, \<open>k'\<close> survives the insertion
  of a fresh key that follows.
\<close>

theorem lru_eviction_and_recency:
  assumes inv: "cache_inv s" and en: "enabled (cacheConfig s)"
    and k: "k \<noteq> []" "map_of (cache s) k = None"
  shows "(int (length (cache s)) = maxSize (cacheConfig s) \<longrightarrow>
            (\<exists>s'. setCachedResponse k r m i out now s = Some s'
                \<and> cache_inv s'
                \<and> lruKeys s' = butlast (k # lruKeys s)
                \<and> set (map fst (cache s'))
                    = insert k (set (map fst (cache s))) - {last (k # lruKeys s)}
                \<and> length (cache s') = length (cache s)))
       \<and> (map_of (cache s) k' = Some e
            \<and> \<not> t - createdAt e > ttlSeconds (cacheConfig s) * 1000 \<longrightarrow>
            lruKeys (snd (getCachedResponse k' t s)) = k' # remove1 k' (lruKeys s)
            \<and> (2 \<le> maxSize (cacheConfig s) \<longrightarrow>
                 (\<exists>s'. setCachedResponse k r m i out now (snd (getCachedResponse k' t s)) = Some s'
                     \<and> k' \<in> set (lruKeys s')
                     \<and> map_of (cache s') k' = Some (e\<lparr>lastAccessed := t, hits := hits e + 1\<rparr>))))"
proof (intro conjI impI)
  obtain as where wf: "wf_lru s as" using inv by (auto simp: cache_inv_iff)
  have keys: "lruKeys s = nodeKeys s as" by (rule wf_lruKeys[OF wf])
  have fresh: "k \<notin> set (nodeKeys s as)" by (rule wf_uncached_no_node(1)[OF wf k(2)])
  {
    assume full: "int (length (cache s)) = maxSize (cacheConfig s)"
    obtain s' as' where s': "setCachedResponse k r m i out now s = Some s'" "wf_lru s' as'"
      "nodeKeys s' as' = take (nat (maxSize (cacheConfig s))) (k # remove1 k (nodeKeys s as))"
      using wf_set[OF wf en k(1), of r m i out now] by blast
    have n: "nat (maxSize (cacheConfig s)) = length (nodeKeys s as)"
      using full wf_lengths(2)[OF wf] by (simp add: nodeKeys_def)
    have "take (length (nodeKeys s as)) (k # nodeKeys s as) = butlast (k # nodeKeys s as)"
      by (simp add: butlast_conv_take)
    then have nk: "nodeKeys s' as' = butlast (k # nodeKeys s as)"
      using s'(3) fresh by (simp add: n remove1_idem)
    have lk: "lruKeys s' = butlast (k # lruKeys s)"
      using wf_lruKeys[OF s'(2)] nk keys by simp
    have "distinct (k # nodeKeys s as)" using wf_distinct_keys[OF wf] fresh by simp
    then have "set (butlast (k # nodeKeys s as))
                 = set (k # nodeKeys s as) - {last (k # nodeKeys s as)}"
      by (rule set_butlast_distinct) simp
    then have ck: "set (map fst (cache s'))
                    = insert k (set (map fst (cache s))) - {last (k # lruKeys s)}"
      using wf_cache_keys[OF s'(2)] wf_cache_keys[OF wf] nk keys by simp
    have "length (nodeKeys s' as') = length as'" by (simp add: nodeKeys_def)
    then have "length (cache s') = length (butlast (k # nodeKeys s as))"
      using wf_lengths(2)[OF s'(2)] by (simp only: nk)
    then have len: "length (cache s') = length (cache s)"
      using wf_lengths(2)[OF wf] by (simp add: nodeKeys_def)
    show "\<exists>s'. setCachedResponse k r m i out now s = Some s'
                \<and> cache_inv s'
                \<and> lruKeys s' = butlast (k # lruKeys s)
                \<and> set (map fst (cache s'))
                    = insert k (set (map fst (cache s))) - {last (k # lruKeys s)}
                \<and> length (cache s') = length (cache s)"
      using s'(1,2) lk ck len cache_inv_iff by blast
  }
  {
    assume hit: "map_of (cache s) k' = Some e
            \<and> \<not> t - createdAt e > ttlSeconds (cacheConfig s) * 1000"
    define g where "g = snd (getCachedResponse k' t s)"
    define e1 where "e1 = e\<lparr>lastAccessed := t, hits := hits e + 1\<rparr>"
    obtain a where a: "wf_lru g (a # remove1 a as)"
      "nodeKeys g (a # remove1 a as) = k' # remove1 k' (nodeKeys s as)"
      "cacheConfig g = cacheConfig s"
      "cache g = AList.update k' e1 (cache s)"
      using wf_get_hit[OF wf en, of k' e t] hit unfolding g_def e1_def by blast
    show "lruKeys (snd (getCachedResponse k' t s)) = k' # remove1 k' (lruKeys s)"
      using wf_lruKeys[OF a(1)] a(2) keys by (simp add: g_def)
    {
      assume big: "2 \<le> maxSize (cacheConfig s)"
      have ne: "k \<noteq> k'" using hit k(2) by auto
      have eng: "enabled (cacheConfig g)" using en a(3) by simp
      obtain s' as' where s': "setCachedResponse k r m i out now g = Some s'" "wf_lru s' as'"
        "nodeKeys s' as' = take (nat (maxSize (cacheConfig g)))
                             (k # remove1 k (nodeKeys g (a # remove1 a as)))"
        "\<And>x. map_of (cache s') x =
                 (if x \<in> set (nodeKeys s' as')
                  then (if x = k then Some (newEntry k r m i out now) else map_of (cache g) x)
                  else None)"
        using wf_set[OF a(1) eng k(1), of r m i out now] by blast
      have "2 \<le> nat (maxSize (cacheConfig g))" using big a(3) by simp
      then obtain n where "nat (maxSize (cacheConfig g)) = 2 + n"
        using le_Suc_ex by blast
      then have n: "nat (maxSize (cacheConfig g)) = Suc (Suc n)" by simp
      have "remove1 k (nodeKeys g (a # remove1 a as)) = k' # remove1 k' (nodeKeys s as)"
        unfolding a(2) using ne fresh by (simp add: remove1_idem notin_set_remove1)
      then have "nodeKeys s' as' = k # k' # take n (remove1 k' (nodeKeys s as))"
        using s'(3) by (simp add: n)
      then have mem: "k' \<in> set (nodeKeys s' as')" by simp
      have "map_of (cache s') k' = map_of (cache g) k'"
        using s'(4)[of k'] mem ne by simp
      also have "\<dots> = Some e1" by (simp add: a(4) update_conv')
      finally have "map_of (cache s') k' = Some e1" .
      then show "\<exists>s'. setCachedResponse k r m i out now (snd (getCachedResponse k' t s)) = Some s'
                     \<and> k' \<in> set (lruKeys s')
                     \<and> map_of (cache s') k' = Some (e\<lparr>lastAccessed := t, hits := hits e + 1\<rparr>)"
        using s'(1) mem wf_lruKeys[OF s'(2)] unfolding g_def e1_def by auto
    }
  }
qed

theorem lru_eviction_and_recency_witness:
  "cache_inv twoEntries \<and> enabled (cacheConfig twoEntries)
   \<and> ''c'' \<noteq> [] \<and> map_of (cache twoEntries) ''c'' = None
   \<and> int (length (cache twoEntries)) = maxSize (cacheConfig twoEntries)
   \<and> lruKeys twoEntries = [''b'', ''a'']
   \<and> (\<exists>s'. setCachedResponse ''c'' 3 ''gpt-4'' 50 60 3000 twoEntries = Some s'
          \<and> lruKeys s' = [''c'', ''b'']
          \<and> set (map fst (cache s')) = {''b'', ''c''}
          \<and> length (cache s') = 2)
   \<and> map_of (cache twoEntries) ''a'' = Some (newEntry ''a'' 1 ''gpt-4'' 10 20 1000)
   \<and> lruKeys (snd (getCachedResponse ''a'' 1500 twoEntries)) = [''a'', ''b'']
   \<and> (\<exists>s'. setCachedResponse ''c'' 3 ''gpt-4'' 50 60 3000
               (snd (getCachedResponse ''a'' 1500 twoEntries)) = Some s'
          \<and> ''a'' \<in> set (lruKeys s'))"
proof -
  let ?e = "newEntry ''a'' (1::nat) ''gpt-4'' 10 20 1000"
  have inv: "cache_inv twoEntries" by code_simp
  have en: "enabled (cacheConfig twoEntries)" by (simp add: twoEntries_def)
  have k: "''c'' \<noteq> []" "map_of (cache twoEntries) ''c'' = None"
    by (simp_all add: twoEntries_def)
  have full: "int (length (cache twoEntries)) = maxSize (cacheConfig twoEntries)"
    and big: "2 \<le> maxSize (cacheConfig twoEntries)"
    by (simp_all add: twoEntries_def)
  have keys: "lruKeys twoEntries = [''b'', ''a'']" by code_simp
  have hit: "map_of (cache twoEntries) ''a'' = Some ?e"
    "\<not> 1500 - createdAt ?e > ttlSeconds (cacheConfig twoEntries) * 1000"
    by (simp_all add: twoEntries_def newEntry_def)
  note th = lru_eviction_and_recency[OF inv en k, where r = 3 and m = "''gpt-4''" and i = 50
      and out = 60 and now = 3000 and k' = "''a''" and e = ?e and t = 1500]
  have cks: "set (map fst (cache twoEntries)) = {''a'', ''b''}"
    by (simp add: twoEntries_def)
  have len: "length (cache twoEntries) = 2" by (simp add: twoEntries_def)
  obtain s1 where s1: "setCachedResponse ''c'' 3 ''gpt-4'' 50 60 3000 twoEntries = Some s1"
    "lruKeys s1 = butlast (''c'' # lruKeys twoEntries)"
    "set (map fst (cache s1))
       = insert ''c'' (set (map fst (cache twoEntries))) - {last (''c'' # lruKeys twoEntries)}"
    "length (cache s1) = length (cache twoEntries)"
    using th[THEN conjunct1, rule_format, OF full] by blast
  have s1a: "lruKeys s1 = [''c'', ''b'']" unfolding s1(2) keys by simp
  have s1b: "set (map fst (cache s1)) = {''b'', ''c''}" unfolding s1(3) keys cks by auto
  have s1c: "length (cache s1) = 2" unfolding s1(4) len ..
  have a: "\<exists>s'. setCachedResponse ''c'' 3 ''gpt-4'' 50 60 3000 twoEntries = Some s'
          \<and> lruKeys s' = [''c'', ''b'']
          \<and> set (map fst (cache s')) = {''b'', ''c''}
          \<and> length (cache s') = 2"
    using s1(1) s1a s1b s1c by blast
  note th2 = th[THEN conjunct2, rule_format, OF conjI[OF hit]]
  have b: "lruKeys (snd (getCachedResponse ''a'' 1500 twoEntries)) = [''a'', ''b'']"
    using th2[THEN conjunct1] unfolding keys by simp
  have c: "\<exists>s'. setCachedResponse ''c'' 3 ''gpt-4'' 50 60 3000
               (snd (getCachedResponse ''a'' 1500 twoEntries)) = Some s'
          \<and> ''a'' \<in> set (lruKeys s')"
    using th2[THEN conjunct2, rule_format, OF big] by blast
  show ?thesis
    by (intro conjI) (rule inv en k full keys a hit(1) b c)+
qed

text \<open>
  The claim C2 as first stated fails at capacity 1: the single entry \<open>a\<close> is read
  successfully and is nevertheless the entry evicted by the next insertion.
\<close>

theorem capacity_one_accessed_entry_evicted:
  "cache_inv (the (setCachedResponse ''a'' 1 ''gpt-4'' 10 20 1000 (exampleState 1)))
   \<and> int (length (cache (the (setCachedResponse ''a'' 1 ''gpt-4'' 10 20 1000 (exampleState 1)))))
       = maxSize (cacheConfig (the (setCachedResponse ''a'' 1 ''gpt-4'' 10 20 1000 (exampleState 1))))
   \<and> fst (getCachedResponse ''a'' 1500
            (the (setCachedResponse ''a'' 1 ''gpt-4'' 10 20 1000 (exampleState 1))))
       = Some ((newEntry ''a'' 1 ''gpt-4'' 10 20 1000)\<lparr>lastAccessed := 1500, hits := 1\<rparr>)
   \<and> map_option (\<lambda>s. map fst (cache s))
        (setCachedResponse ''b'' 2 ''gpt-4'' 30 40 2000
           (snd (getCachedResponse ''a'' 1500
              (the (setCachedResponse ''a'' 1 ''gpt-4'' 10 20 1000 (exampleState 1))))))
       = Some [''b'']"
  by code_simp

section \<open>Properties of the retry utility\<close>

lemma withRetry_loop_success:
  "attempt \<le> maxAttempts opts \<Longrightarrow> fn (Suc ncalls) = Inr v \<Longrightarrow>
   withRetry_loop opts fn random attempt lastError ncalls sleeps
     = \<lparr>outcome = Inr v, calls = Suc ncalls, slept = sleeps\<rparr>"
  by (subst withRetry_loop.simps) simp

lemma withRetry_loop_giveup:
  "attempt \<le> maxAttempts opts \<Longrightarrow> fn (Suc ncalls) = Inl e \<Longrightarrow>
   \<not> (attempt < maxAttempts opts \<and> retryable opts e) \<Longrightarrow>
   withRetry_loop opts fn random attempt lastError ncalls sleeps
     = \<lparr>outcome = Inl e, calls = Suc ncalls, slept = sleeps\<rparr>"
  by (subst withRetry_loop.simps) (auto simp: retryable_def Let_def)

lemma withRetry_loop_retry:
  "attempt < maxAttempts opts \<Longrightarrow> fn (Suc ncalls) = Inl e \<Longrightarrow> retryable opts e \<Longrightarrow>
   callbackSilent opts \<Longrightarrow>
   withRetry_loop opts fn random attempt lastError ncalls sleeps
     = withRetry_loop opts fn random (attempt + 1) e (Suc ncalls)
         (sleeps @ [calculateDelay attempt (initialDelayMs opts) (maxDelayMs opts)
                      (backoffMultiplier opts) (random (Suc ncalls))])"
  by (subst withRetry_loop.simps)
     (auto simp: retryable_def callbackSilent_def Let_def split: option.splits)

text \<open>After \<open>j\<close> retryable failures in a row, with attempts to spare, the loop stands at
  attempt \<open>j + 1\<close> having slept the \<open>j\<close> computed delays.\<close>

lemma withRetry_loop_failures:
  assumes "callbackSilent opts"
    and "\<And>n. 1 \<le> n \<Longrightarrow> n \<le> j \<Longrightarrow> \<exists>e. fn n = Inl e \<and> retryable opts e"
    and "int j < maxAttempts opts"
  shows "withRetry_loop opts fn random 1 Undefined 0 []
         = withRetry_loop opts fn random (int j + 1)
             (if j = 0 then Undefined else projl (fn j)) j (delays opts random j)"
  using assms(2,3)
proof (induction j)
  case 0
  then show ?case by (simp add: delays_def)
next
  case (Suc j)
  obtain e where e: "fn (Suc j) = Inl e" "retryable opts e"
    using Suc.prems(1)[of "Suc j"] by auto
  have "withRetry_loop opts fn random 1 Undefined 0 []
         = withRetry_loop opts fn random (int j + 1)
             (if j = 0 then Undefined else projl (fn j)) j (delays opts random j)"
    using Suc.IH Suc.prems by simp
  also have "\<dots> = withRetry_loop opts fn random (int j + 1 + 1) e (Suc j)
         (delays opts random j @ [calculateDelay (int j + 1) (initialDelayMs opts)
            (maxDelayMs opts) (backoffMultiplier opts) (random (Suc j))])"
    using Suc.prems(2) e assms(1)
    by (intro withRetry_loop_retry[where e = e]) simp_all
  also have "delays opts random j @ [calculateDelay (int j + 1) (initialDelayMs opts)
            (maxDelayMs opts) (backoffMultiplier opts) (random (Suc j))]
         = delays opts random (Suc j)"
    by (simp add: delays_def add.commute)
  finally show ?case by (simp add: e add.commute)
qed

text \<open>
  C4. Let \<open>maxAttempts\<close> be \<open>j + 1\<close> and let the \<open>onRetry\<close> callback, if any, not throw.
  If 503 is a retryable status, \<open>fn\<close> fails with HTTP status 503 on its first \<open>j\<close>
  invocations and then succeeds, \<open>withRetry\<close> returns the success value after exactly
  \<open>j + 1\<close> invocations, having slept the \<open>j\<close> computed delays. If 400 is not a retryable
  status and the first invocation fails with HTTP status 400, \<open>withRetry\<close> rethrows that
  error after exactly one invocation, without sleeping. If all \<open>j + 1\<close> invocations fail
  with retryable errors, the error of the last invocation is thrown unchanged.
\<close>

theorem retry_invocation_counts:
  assumes silent: "callbackSilent (mergeOptions DEFAULT_OPTIONS options)"
    and m: "maxAttempts (mergeOptions DEFAULT_OPTIONS options) = int (Suc j)"
  defines "opts \<equiv> mergeOptions DEFAULT_OPTIONS options"
  shows "(503 \<in> set (retryableStatuses opts)
          \<and> (\<forall>n. 1 \<le> n \<and> n \<le> j \<longrightarrow> (\<exists>e. fn n = Inl e \<and> failsWithStatus 503 e))
          \<and> fn (Suc j) = Inr v \<longrightarrow>
            withRetry fn options random
              = \<lparr>outcome = Inr v, calls = Suc j, slept = delays opts random j\<rparr>)
       \<and> (400 \<notin> set (retryableStatuses opts) \<and> fn 1 = Inl e \<and> failsWithStatus 400 e \<longrightarrow>
            withRetry fn options random = \<lparr>outcome = Inl e, calls = 1, slept = []\<rparr>)
       \<and> ((\<forall>n. 1 \<le> n \<and> n \<le> Suc j \<longrightarrow> (\<exists>e. fn n = Inl e \<and> retryable opts e)) \<longrightarrow>
            withRetry fn options random
              = \<lparr>outcome = fn (Suc j), calls = Suc j, slept = delays opts random j\<rparr>)"
  unfolding withRetry_def opts_def[symmetric]
proof (intro conjI impI)
  have r503: "retryable opts x" if "503 \<in> set (retryableStatuses opts)" "failsWithStatus 503 x" for x
    using that by (auto simp: retryable_def failsWithStatus_def isRetryableStatus_def
        split: thrown.splits option.splits)
  have n400: "\<not> retryable opts x" if "400 \<notin> set (retryableStatuses opts)" "failsWithStatus 400 x" for x
    using that by (auto simp: retryable_def failsWithStatus_def isRetryableStatus_def
        split: thrown.splits option.splits)
  {
    assume a: "503 \<in> set (retryableStatuses opts)
          \<and> (\<forall>n. 1 \<le> n \<and> n \<le> j \<longrightarrow> (\<exists>e. fn n = Inl e \<and> failsWithStatus 503 e))
          \<and> fn (Suc j) = Inr v"
    have "withRetry_loop opts fn random 1 Undefined 0 []
         = withRetry_loop opts fn random (int j + 1)
             (if j = 0 then Undefined else projl (fn j)) j (delays opts random j)"
      using a r503 m silent unfolding opts_def[symmetric]
      by (intro withRetry_loop_failures) auto
    also have "\<dots> = \<lparr>outcome = Inr v, calls = Suc j, slept = delays opts random j\<rparr>"
      using a m unfolding opts_def[symmetric] by (intro withRetry_loop_success) auto
    finally show "withRetry_loop opts fn random 1 Undefined 0 []
              = \<lparr>outcome = Inr v, calls = Suc j, slept = delays opts random j\<rparr>" .
  }
  {
    assume a: "400 \<notin> set (retryableStatuses opts) \<and> fn 1 = Inl e \<and> failsWithStatus 400 e"
    show "withRetry_loop opts fn random 1 Undefined 0 []
              = \<lparr>outcome = Inl e, calls = 1, slept = []\<rparr>"
      using withRetry_loop_giveup[of 1 opts fn 0 e random Undefined "[]"] a n400 m
      unfolding opts_def[symmetric] by auto
  }
  {
    assume a: "\<forall>n. 1 \<le> n \<and> n \<le> Suc j \<longrightarrow> (\<exists>e. fn n = Inl e \<and> retryable opts e)"
    obtain x where x: "fn (Suc j) = Inl x" using a by auto
    have "withRetry_loop opts fn random 1 Undefined 0 []
         = withRetry_loop opts fn random (int j + 1)
             (if j = 0 then Undefined else projl (fn j)) j (delays opts random j)"
      using a m silent unfolding opts_def[symmetric]
      by (intro withRetry_loop_failures) auto
    also have "\<dots> = \<lparr>outcome = Inl x, calls = Suc j, slept = delays opts random j\<rparr>"
      using x m unfolding opts_def[symmetric] by (intro withRetry_loop_giveup) auto
    finally show "withRetry_loop opts fn random 1 Undefined 0 []
              = \<lparr>outcome = fn (Suc j), calls = Suc j, slept = delays opts random j\<rparr>"
      by (simp add: x)
  }
qed

theorem retry_invocation_counts_witness:
  "callbackSilent (mergeOptions DEFAULT_OPTIONS noOptions)
   \<and> maxAttempts (mergeOptions DEFAULT_OPTIONS noOptions) = int (Suc 2)
   \<and> 503 \<in> set (retryableStatuses (mergeOptions DEFAULT_OPTIONS noOptions))
   \<and> failsWithStatus 503 (httpError 503)
   \<and> withRetry failThenSucceed noOptions (\<lambda>n. 1 / 2)
       = \<lparr>outcome = Inr 42, calls = 3, slept = [1000, 2000]\<rparr>
   \<and> 400 \<notin> set (retryableStatuses (mergeOptions DEFAULT_OPTIONS noOptions))
   \<and> failsWithStatus 400 (httpError 400)
   \<and> withRetry (\<lambda>n. Inl (httpError 400)) noOptions (\<lambda>n. 1 / 2)
       = \<lparr>outcome = (Inl (httpError 400) :: thrown + nat), calls = 1, slept = []\<rparr>
   \<and> retryable (mergeOptions DEFAULT_OPTIONS noOptions) (httpError 503)
   \<and> withRetry (\<lambda>n. Inl (httpError 503)) noOptions (\<lambda>n. 1 / 2)
       = \<lparr>outcome = (Inl (httpError 503) :: thrown + nat), calls = 3, slept = [1000, 2000]\<rparr>"
proof -
  let ?o = "mergeOptions DEFAULT_OPTIONS noOptions"
  have o: "?o = DEFAULT_OPTIONS"
    by (simp add: mergeOptions_def noOptions_def DEFAULT_OPTIONS_def)
  have silent: "callbackSilent ?o"
    unfolding o by (simp add: callbackSilent_def DEFAULT_OPTIONS_def)
  have m: "maxAttempts ?o = int (Suc 2)"
    unfolding o by (simp add: DEFAULT_OPTIONS_def)
  have st: "503 \<in> set (retryableStatuses ?o)" "400 \<notin> set (retryableStatuses ?o)"
    unfolding o by (simp_all add: DEFAULT_OPTIONS_def)
  have f: "failsWithStatus 503 (httpError 503)" "failsWithStatus 400 (httpError 400)"
    by (simp_all add: failsWithStatus_def httpError_def isNetworkError_def)
  have r: "retryable ?o (httpError 503)"
    unfolding o
    by (simp add: retryable_def DEFAULT_OPTIONS_def isRetryableStatus_def httpError_def)
  have d: "delays ?o (\<lambda>n. 1 / 2) 2 = [1000, 2000]"
    unfolding o
    by (simp add: delays_def DEFAULT_OPTIONS_def calculateDelay_def backoffDelay_def
        backoffJitter_def upt_rec)
  note th = retry_invocation_counts[OF silent m, where random = "\<lambda>n. 1 / 2"]
  have a: "withRetry failThenSucceed noOptions (\<lambda>n. 1 / 2)
       = \<lparr>outcome = Inr 42, calls = 3, slept = [1000, 2000]\<rparr>"
    using th[where fn = failThenSucceed and v = 42, THEN conjunct1] st f
    by (simp add: d failThenSucceed_def)
  have b: "withRetry (\<lambda>n. Inl (httpError 400)) noOptions (\<lambda>n. 1 / 2)
       = \<lparr>outcome = (Inl (httpError 400) :: thrown + nat), calls = 1, slept = []\<rparr>"
    using th[where fn = "\<lambda>n. Inl (httpError 400)" and e = "httpError 400",
        THEN conjunct2, THEN conjunct1] st f
    by simp
  have c: "withRetry (\<lambda>n. Inl (httpError 503)) noOptions (\<lambda>n. 1 / 2)
       = \<lparr>outcome = (Inl (httpError 503) :: thrown + nat), calls = 3, slept = [1000, 2000]\<rparr>"
    using th[where fn = "\<lambda>n. Inl (httpError 503)", THEN conjunct2, THEN conjunct2] r
    by (simp add: d)
  show ?thesis
    by (intro conjI) (rule silent m st f a b r c)+
qed

text \<open>
  C3. The jitter added to the nominal delay \<open>initialDelay * multiplier ^ (attempt - 1)\<close>
  is \<open>delay * 0.2 * (random - 0.5)\<close> with \<open>random\<close> in \<open>[0, 1)\<close>: it lies within 10% of
  the nominal delay in each direction and, for a positive delay, never reaches 20% of
  it. The delay computed lies between \<open>min (0.9 * delay) maxDelay\<close> and
  \<open>min (1.1 * delay) maxDelay\<close>.
\<close>

theorem backoff_jitter_is_ten_percent:
  assumes "0 \<le> random" and "random < 1" and "0 \<le> initialDelay" and "0 \<le> multiplier"
  shows "\<bar>backoffJitter attempt initialDelay multiplier random\<bar>
           \<le> backoffDelay attempt initialDelay multiplier / 10
         \<and> (0 < backoffDelay attempt initialDelay multiplier \<longrightarrow>
               \<bar>backoffJitter attempt initialDelay multiplier random\<bar>
                 < backoffDelay attempt initialDelay multiplier * 0.2)
         \<and> min (backoffDelay attempt initialDelay multiplier * 0.9) maxDelay
             \<le> calculateDelay attempt initialDelay maxDelay multiplier random
         \<and> calculateDelay attempt initialDelay maxDelay multiplier random
             \<le> min (backoffDelay attempt initialDelay multiplier * 1.1) maxDelay"
proof -
  define d where "d = backoffDelay attempt initialDelay multiplier"
  have d0: "0 \<le> d"
    unfolding d_def backoffDelay_def using assms(3,4) by (simp add: zero_le_power_int)
  have r: "\<bar>random - 0.5\<bar> \<le> 0.5" using assms(1,2) by linarith
  have j: "backoffJitter attempt initialDelay multiplier random = d * 0.2 * (random - 0.5)"
    by (simp add: backoffJitter_def d_def)
  have "\<bar>d * 0.2 * (random - 0.5)\<bar> = d * 0.2 * \<bar>random - 0.5\<bar>"
    using d0 by (simp add: abs_mult)
  also have "\<dots> \<le> d * 0.2 * 0.5"
    using r d0 by (intro mult_left_mono) simp_all
  finally have b: "\<bar>d * 0.2 * (random - 0.5)\<bar> \<le> d / 10" by simp
  then have lo: "d * 0.9 \<le> d + d * 0.2 * (random - 0.5)"
    and hi: "d + d * 0.2 * (random - 0.5) \<le> d * 1.1"
    by (simp_all add: abs_le_iff)
  have c: "calculateDelay attempt initialDelay maxDelay multiplier random
             = min (d + d * 0.2 * (random - 0.5)) maxDelay"
    by (simp add: calculateDelay_def j d_def)
  show ?thesis
    unfolding c j d_def[symmetric] using b lo hi d0 by (auto simp: min_def)
qed

theorem backoff_jitter_is_ten_percent_witness:
  "(0::real) \<le> 0 \<and> (0::real) < 1 \<and> (0::real) \<le> 1000 \<and> (0::real) \<le> 2
   \<and> backoffDelay 1 1000 2 = 1000
   \<and> backoffJitter 1 1000 2 0 = - 100
   \<and> calculateDelay 1 1000 30000 2 0 = 900
   \<and> \<bar>backoffJitter 1 1000 2 0\<bar> \<le> backoffDelay 1 1000 2 / 10"
  using backoff_jitter_is_ten_percent[of 0 1000 2 1 30000]
  by (simp add: backoffDelay_def backoffJitter_def calculateDelay_def)

section \<open>Properties of the rate limit gate and of the token refresh\<close>

text \<open>
  The tests and the wait of \<open>checkRateLimit\<close> in whole milliseconds: on the paced path
  the function is a three-way choice, the elapsed time exceeds the interval when
  \<open>now - l > limit * 1000\<close>, and the wait is the remainder rounded up to a whole second.
\<close>

lemma checkRateLimit_paced:
  assumes "rateLimitSeconds state = Some limit" and "lastRequestTimestamp state = Some l"
    and "l \<noteq> 0"
  shows "checkRateLimit state now later =
     (if real_of_int (now - l) / 1000 > real_of_int limit
      then (Inr (), state\<lparr>lastRequestTimestamp := Some later\<rparr>, [])
      else if \<not> rateLimitWait state
      then (Inl (HTTPError ''Rate limit exceeded'' 429), state, [])
      else (Inr (), state\<lparr>lastRequestTimestamp := Some later\<rparr>,
            [\<lceil>real_of_int limit - real_of_int (now - l) / 1000\<rceil> * 1000]))"
  using assms by (simp add: checkRateLimit_def updateTimestamp_def Let_def)

lemma elapsed_exceeds_iff:
  "real_of_int d / 1000 > real_of_int limit \<longleftrightarrow> d > limit * 1000"
proof -
  have "real_of_int d / 1000 > real_of_int limit
          \<longleftrightarrow> real_of_int d > real_of_int (limit * 1000)"
    by (simp add: field_simps)
  then show ?thesis by linarith
qed

lemma remaining_seconds:
  "real_of_int limit - real_of_int d / 1000 = real_of_int (limit * 1000 - d) / 1000"
  by (simp add: field_simps)

lemma ceiling_milliseconds:
  fixes a :: int
  shows "a \<le> \<lceil>real_of_int a / 1000\<rceil> * 1000" and "\<lceil>real_of_int a / 1000\<rceil> * 1000 < a + 1000"
proof -
  define c where "c = \<lceil>real_of_int a / 1000\<rceil>"
  have "real_of_int a / 1000 \<le> real_of_int c" unfolding c_def by (rule le_of_int_ceiling)
  then have "real_of_int a \<le> real_of_int (c * 1000)" by (simp add: field_simps)
  then show "a \<le> \<lceil>real_of_int a / 1000\<rceil> * 1000" unfolding c_def by linarith
  have "real_of_int c < real_of_int a / 1000 + 1" unfolding c_def by linarith
  then have "real_of_int (c * 1000) < real_of_int (a + 1000)" by (simp add: field_simps)
  then show "\<lceil>real_of_int a / 1000\<rceil> * 1000 < a + 1000" unfolding c_def by linarith
qed

text \<open>
  C7. With no interval configured \<open>checkRateLimit\<close> returns at once and changes nothing.
  With an interval of \<open>limit\<close> seconds configured: when no previous request is on record
  (the timestamp is undefined or 0), or more than the interval has elapsed since it, the
  call returns without error and without sleeping, and the last-request timestamp
  becomes the clock reading \<open>later\<close> taken by \<open>updateTimestamp\<close>, the other fields
  staying as they were. When at most the interval has elapsed and waiting is off, it
  throws the HTTP 429 error "Rate limit exceeded" with the state untouched and without
  sleeping. When at most the interval has elapsed and waiting is on, it sleeps once, for
  the remainder of the interval rounded up to whole seconds (so at least the remainder
  \<open>limit * 1000 - (now - l)\<close> milliseconds, and less than a second more), and then the
  last-request timestamp becomes the clock reading \<open>later\<close> taken after the sleep.
\<close>

theorem rate_limit_gate:
  "(rateLimitSeconds state = None \<longrightarrow> checkRateLimit state now later = (Inr (), state, []))
   \<and> (rateLimitSeconds state = Some limit
        \<and> (lastRequestTimestamp state = None \<or> lastRequestTimestamp state = Some 0) \<longrightarrow>
        checkRateLimit state now later
          = (Inr (), state\<lparr>lastRequestTimestamp := Some later\<rparr>, []))
   \<and> (rateLimitSeconds state = Some limit \<and> lastRequestTimestamp state = Some l \<and> l \<noteq> 0 \<longrightarrow>
        (now - l > limit * 1000 \<longrightarrow>
           checkRateLimit state now later
             = (Inr (), state\<lparr>lastRequestTimestamp := Some later\<rparr>, [])
           \<and> lastRequestTimestamp (fst (snd (checkRateLimit state now later))) = Some later)
      \<and> (now - l \<le> limit * 1000 \<and> \<not> rateLimitWait state \<longrightarrow>
           checkRateLimit state now later
             = (Inl (HTTPError ''Rate limit exceeded'' 429), state, []))
      \<and> (now - l \<le> limit * 1000 \<and> rateLimitWait state \<longrightarrow>
           checkRateLimit state now later
             = (Inr (), state\<lparr>lastRequestTimestamp := Some later\<rparr>,
                [\<lceil>real_of_int (limit * 1000 - (now - l)) / 1000\<rceil> * 1000])
           \<and> lastRequestTimestamp (fst (snd (checkRateLimit state now later))) = Some later
           \<and> limit * 1000 - (now - l)
               \<le> \<lceil>real_of_int (limit * 1000 - (now - l)) / 1000\<rceil> * 1000
           \<and> \<lceil>real_of_int (limit * 1000 - (now - l)) / 1000\<rceil> * 1000
               < limit * 1000 - (now - l) + 1000))"
proof -
  define w where "w = \<lceil>real_of_int (limit * 1000 - (now - l)) / 1000\<rceil> * 1000"
  have none: "checkRateLimit state now later = (Inr (), state, [])"
    if "rateLimitSeconds state = None"
    using that by (simp add: checkRateLimit_def)
  have first: "checkRateLimit state now later
          = (Inr (), state\<lparr>lastRequestTimestamp := Some later\<rparr>, [])"
    if "rateLimitSeconds state = Some limit"
      and "lastRequestTimestamp state = None \<or> lastRequestTimestamp state = Some 0"
    using that by (auto simp: checkRateLimit_def updateTimestamp_def)
  have paced: "checkRateLimit state now later =
     (if now - l > limit * 1000
      then (Inr (), state\<lparr>lastRequestTimestamp := Some later\<rparr>, [])
      else if \<not> rateLimitWait state
      then (Inl (HTTPError ''Rate limit exceeded'' 429), state, [])
      else (Inr (), state\<lparr>lastRequestTimestamp := Some later\<rparr>, [w]))"
    if "rateLimitSeconds state = Some limit" and "lastRequestTimestamp state = Some l"
      and "l \<noteq> 0"
    unfolding checkRateLimit_paced[OF that] elapsed_exceeds_iff remaining_seconds w_def ..
  have lo: "limit * 1000 - (now - l) \<le> w" and hi: "w < limit * 1000 - (now - l) + 1000"
    unfolding w_def by (rule ceiling_milliseconds)+
  show ?thesis
    unfolding w_def[symmetric] using none first paced lo hi by auto
qed

theorem rate_limit_gate_witness:
  "rateLimitSeconds (pacedState False) = Some 10
   \<and> lastRequestTimestamp (pacedState False) = Some 1000
   \<and> 5000 - 1000 \<le> (10::int) * 1000
   \<and> checkRateLimit (pacedState False) 5000 11000
       = (Inl (HTTPError ''Rate limit exceeded'' 429), pacedState False, [])
   \<and> checkRateLimit (pacedState True) 5000 11000
       = (Inr (), (pacedState True)\<lparr>lastRequestTimestamp := Some 11000\<rparr>, [6000])
   \<and> lastRequestTimestamp (fst (snd (checkRateLimit (pacedState True) 5000 11000))) = Some 11000
   \<and> checkRateLimit (pacedState False) 20000 20001
       = (Inr (), (pacedState False)\<lparr>lastRequestTimestamp := Some 20001\<rparr>, [])
   \<and> checkRateLimit ((pacedState False)\<lparr>rateLimitSeconds := None\<rparr>) 5000 5001
       = (Inr (), (pacedState False)\<lparr>rateLimitSeconds := None\<rparr>, [])"
  using rate_limit_gate[of "pacedState False" 5000 11000 10 1000]
    rate_limit_gate[of "pacedState True" 5000 11000 10 1000]
    rate_limit_gate[of "pacedState False" 20000 20001 10 1000]
    rate_limit_gate[of "(pacedState False)\<lparr>rateLimitSeconds := None\<rparr>" 5000 5001 10 1000]
  by (simp add: pacedState_def)

lemma refresh_loop_success:
  "attempt \<le> 3 \<Longrightarrow> fetch (Suc (run_calls run)) = Inr resp \<Longrightarrow>
   refresh_loop fetch attempt run
     = run\<lparr>run_state := (run_state run)\<lparr>copilotToken := Some (token resp)\<rparr>,
           run_calls := Suc (run_calls run),
           run_log := run_log run @ [Log_refreshed]
              @ (if showToken (run_state run)
                 then [Log_refreshed_token (maskToken (token resp))] else [])\<rparr>"
  by (subst refresh_loop.simps) (simp add: MAX_TOKEN_REFRESH_RETRIES_def)

lemma refresh_loop_failure:
  "attempt \<le> 3 \<Longrightarrow> fetch (Suc (run_calls run)) = Inl error \<Longrightarrow>
   refresh_loop fetch attempt run
     = refresh_loop fetch (attempt + 1)
         (run\<lparr>run_calls := Suc (run_calls run),
              run_slept := run_slept run @ (if attempt < 3 then [attempt * 5000] else []),
              run_log := run_log run @ [Log_refresh_failed attempt 3 error]\<rparr>)"
  by (subst refresh_loop.simps) (simp add: MAX_TOKEN_REFRESH_RETRIES_def)

lemma refresh_loop_end:
  "3 < attempt \<Longrightarrow>
   refresh_loop fetch attempt run = run\<lparr>run_log := run_log run @ [Log_all_refresh_attempts_failed]\<rparr>"
  by (subst refresh_loop.simps) (simp add: MAX_TOKEN_REFRESH_RETRIES_def)

lemmas refresh_loop_unfold = refresh_loop_success refresh_loop_failure refresh_loop_end

text \<open>
  C8 (as amended). \<open>setupCopilotToken\<close> registers the refresh timer with the period
  \<open>(refresh_in - 60) * 1000\<close> milliseconds. One firing of the timer calls
  \<open>getCopilotToken\<close> at most three times in all, stores the new token at the first
  success, and sleeps \<open>attempt * 5000\<close> milliseconds after a failed first and second
  attempt (5 s, then 10 s). When all three attempts fail it leaves the state, and so the
  stale token, as it was and ends with the log line that all attempts failed.
\<close>

theorem token_refresh_three_attempts:
  "(setupCopilotToken override state (Inr resp) =
      Inr \<lparr>setup_state =
             (if truthy override then state\<lparr>githubToken := override\<rparr> else state)
               \<lparr>copilotToken := Some (token resp)\<rparr>,
           refreshInterval = (refresh_in resp - 60) * 1000,
           setup_log = Log_fetched
              # (if showToken state then [Log_token (maskToken (token resp))] else [])\<rparr>)
   \<and> (fetch 1 = Inr resp \<longrightarrow>
        copilotToken (run_state (refreshTick state fetch)) = Some (token resp)
        \<and> run_calls (refreshTick state fetch) = 1
        \<and> run_slept (refreshTick state fetch) = [])
   \<and> (fetch 1 = Inl e1 \<and> fetch 2 = Inr resp \<longrightarrow>
        copilotToken (run_state (refreshTick state fetch)) = Some (token resp)
        \<and> run_calls (refreshTick state fetch) = 2
        \<and> run_slept (refreshTick state fetch) = [5000])
   \<and> (fetch 1 = Inl e1 \<and> fetch 2 = Inl e2 \<and> fetch 3 = Inr resp \<longrightarrow>
        copilotToken (run_state (refreshTick state fetch)) = Some (token resp)
        \<and> run_calls (refreshTick state fetch) = 3
        \<and> run_slept (refreshTick state fetch) = [5000, 10000])
   \<and> (fetch 1 = Inl e1 \<and> fetch 2 = Inl e2 \<and> fetch 3 = Inl e3 \<longrightarrow>
        refreshTick state fetch
          = \<lparr>run_state = state, run_calls = 3, run_slept = [5000, 10000],
             run_log = [Log_refreshing, Log_refresh_failed 1 3 e1, Log_refresh_failed 2 3 e2,
                        Log_refresh_failed 3 3 e3, Log_all_refresh_attempts_failed]\<rparr>)"
  by (simp add: setupCopilotToken_def refreshTick_def refresh_loop_unfold Let_def
      numeral_2_eq_2 numeral_3_eq_3)

theorem token_refresh_three_attempts_witness:
  "refreshInterval (projr (setupCopilotToken None tokenState (Inr freshToken))) = 1440000
   \<and> refreshTick tokenState (\<lambda>n. if n < 3 then Inl (httpError 500) else Inr freshToken)
       = \<lparr>run_state = tokenState\<lparr>copilotToken := Some ''tid=fresh_token_0002''\<rparr>,
          run_calls = 3, run_slept = [5000, 10000],
          run_log = [Log_refreshing, Log_refresh_failed 1 3 (httpError 500),
                     Log_refresh_failed 2 3 (httpError 500), Log_refreshed]\<rparr>
   \<and> refreshTick tokenState (\<lambda>n. Inl (httpError 500))
       = \<lparr>run_state = tokenState, run_calls = 3, run_slept = [5000, 10000],
          run_log = [Log_refreshing, Log_refresh_failed 1 3 (httpError 500),
                     Log_refresh_failed 2 3 (httpError 500),
                     Log_refresh_failed 3 3 (httpError 500),
                     Log_all_refresh_attempts_failed]\<rparr>"
proof -
  have a: "refreshInterval (projr (setupCopilotToken None tokenState (Inr freshToken))) = 1440000"
    using token_refresh_three_attempts[of None tokenState freshToken, THEN conjunct1]
    by (simp add: freshToken_def)
  have b: "refreshTick tokenState (\<lambda>n. Inl (httpError 500))
       = \<lparr>run_state = tokenState, run_calls = 3, run_slept = [5000, 10000],
          run_log = [Log_refreshing, Log_refresh_failed 1 3 (httpError 500),
                     Log_refresh_failed 2 3 (httpError 500),
                     Log_refresh_failed 3 3 (httpError 500),
                     Log_all_refresh_attempts_failed]\<rparr>"
    using token_refresh_three_attempts[of None tokenState freshToken
        "\<lambda>n. Inl (httpError 500)" "httpError 500" "httpError 500" "httpError 500"]
    by simp
  have c: "refreshTick tokenState (\<lambda>n. if n < 3 then Inl (httpError 500) else Inr freshToken)
       = \<lparr>run_state = tokenState\<lparr>copilotToken := Some ''tid=fresh_token_0002''\<rparr>,
          run_calls = 3, run_slept = [5000, 10000],
          run_log = [Log_refreshing, Log_refresh_failed 1 3 (httpError 500),
                     Log_refresh_failed 2 3 (httpError 500), Log_refreshed]\<rparr>"
    by (simp add: refreshTick_def refresh_loop_unfold tokenState_def freshToken_def)
  show ?thesis by (intro conjI) (rule a b c)+
qed

text \<open>
  The claim C8 as first stated fails in both of its clauses. Retries: when every attempt
  fails, \<open>getCopilotToken\<close> is called 3 times, that is 2 retries and not 3, with two
  sleeps, and the stale token stays. Schedule: for a token response that declares its
  expiry 1800 seconds after the registration of the timer and \<open>refresh_in = 1500\<close>, the
  first firing comes 1440 seconds after registration, which is 360 seconds and not 60
  seconds before the declared expiry; and a response that differs only in \<open>expires_at\<close>
  gives the same period, so the period does not depend on the declared expiry.
\<close>

theorem token_refresh_ignores_expiry_and_retries_twice:
  "run_calls (refreshTick tokenState (\<lambda>n. Inl (httpError 500))) = 3
   \<and> run_slept (refreshTick tokenState (\<lambda>n. Inl (httpError 500))) = [5000, 10000]
   \<and> run_calls (refreshTick tokenState (\<lambda>n. Inl (httpError 500))) - 1 \<noteq> 3
   \<and> run_state (refreshTick tokenState (\<lambda>n. Inl (httpError 500))) = tokenState
   \<and> firingTime 1700000000000 (projr (setupCopilotToken None tokenState (Inr freshToken))) 1
       = 1700001440000
   \<and> expiryMinus60s freshToken = 1700001740000
   \<and> firingTime 1700000000000 (projr (setupCopilotToken None tokenState (Inr freshToken))) 1
       \<noteq> expiryMinus60s freshToken
   \<and> refreshInterval (projr (setupCopilotToken None tokenState
         (Inr (freshToken\<lparr>expires_at := 1700003600\<rparr>))))
       = refreshInterval (projr (setupCopilotToken None tokenState (Inr freshToken)))"
  by (simp add: refreshTick_def refresh_loop_unfold setupCopilotToken_def firingTime_def
      expiryMinus60s_def freshToken_def)

end
